theory Spec2Isabelle
  imports Main "HOL-Library.Monad_Syntax"
begin

section \<open>The ordered dictionary of ordered\_dict.go\<close>

text \<open>
  The Go program keeps a hash index \<open>data\<close> from keys to heap nodes and threads the
  nodes on a doubly linked list between two sentinel nodes \<open>head\<close> and \<open>tail\<close>.
  Nodes are shared between the index and the list, and the reordering operations
  rewrite pointers of nodes that may alias, so the model carries an explicit store:
  addresses are natural numbers, \<open>heap\<close> maps the allocated addresses to node
  records, and \<open>&node{...}\<close> takes the address \<open>nextfree\<close> and moves \<open>nextfree\<close> on.
  \<open>heap\<close> and \<open>nextfree\<close> are not fields of the Go struct; they are the part of the Go
  heap that the container's nodes live in. Go never frees a node that is still referenced
  and the model never frees at all.

  A Go pointer may be \<open>nil\<close> (the \<open>prev\<close> of \<open>head\<close> and the \<open>next\<close> of
  \<open>tail\<close> are); a pointer field is therefore an \<open>addr option\<close>. The fields
  \<open>head\<close>, \<open>tail\<close> and the values of \<open>data\<close> only ever receive the result of an
  allocation and are plain addresses.

  Dereferencing \<open>nil\<close> panics in Go. Every function that dereferences a pointer
  returns an \<open>option\<close>, and \<open>None\<close> is that panic. The lock \<open>mu\<close> does nothing for
  a single caller and is not part of the sequential model; the section on two callers
  adds it. The counter \<open>len\<close> is a Go \<open>int\<close>; it counts live heap nodes and cannot
  reach \<open>2^63\<close>, so it is an unbounded \<open>int\<close> here.
\<close>

type_synonym addr = nat

record ('k, 'v) node =
  prev :: "addr option"
  "next" :: "addr option"
  key :: 'k
  val :: 'v

type_synonym ('k, 'v) store = "addr \<rightharpoonup> ('k, 'v) node"

record ('k, 'v) OrderedDict =
  heap :: "('k, 'v) store"
  nextfree :: addr
  data :: "'k \<rightharpoonup> addr"
  head :: addr
  tail :: addr
  len :: int

text \<open>The zero value of a Go type is the \<open>default\<close> of its HOL type.\<close>

instantiation int :: default
begin
definition default_int :: int where "default_int = 0"
instance ..
end

instantiation list :: (type) default
begin
definition default_list :: "'a list" where "default_list = []"
instance ..
end

subsection \<open>Reading and writing through pointers\<close>

definition load :: "('k, 'v) store \<Rightarrow> addr option \<Rightarrow> ('k, 'v) node option" where
  "load h p = (case p of None \<Rightarrow> None | Some a \<Rightarrow> h a)"

definition set_prev :: "('k, 'v) store \<Rightarrow> addr option \<Rightarrow> addr option \<Rightarrow> ('k, 'v) store option" where
  "set_prev h p q = (case p of None \<Rightarrow> None
     | Some a \<Rightarrow> (case h a of None \<Rightarrow> None | Some n \<Rightarrow> Some (h(a \<mapsto> n\<lparr>prev := q\<rparr>))))"

definition set_next :: "('k, 'v) store \<Rightarrow> addr option \<Rightarrow> addr option \<Rightarrow> ('k, 'v) store option" where
  "set_next h p q = (case p of None \<Rightarrow> None
     | Some a \<Rightarrow> (case h a of None \<Rightarrow> None | Some n \<Rightarrow> Some (h(a \<mapsto> n\<lparr>next := q\<rparr>))))"

definition set_val :: "('k, 'v) store \<Rightarrow> addr option \<Rightarrow> 'v \<Rightarrow> ('k, 'v) store option" where
  "set_val h p v = (case p of None \<Rightarrow> None
     | Some a \<Rightarrow> (case h a of None \<Rightarrow> None | Some n \<Rightarrow> Some (h(a \<mapsto> n\<lparr>val := v\<rparr>))))"

text \<open>\<open>&node[K, V]{key: k, val: v}\<close>: a new node with \<open>nil\<close> links at the next unused address.\<close>

definition alloc :: "('k, 'v) OrderedDict \<Rightarrow> 'k \<Rightarrow> 'v \<Rightarrow> addr \<times> ('k, 'v) OrderedDict" where
  "alloc d k v =
     (nextfree d,
      d\<lparr>heap := (heap d)(nextfree d \<mapsto> \<lparr>prev = None, next = None, key = k, val = v\<rparr>),
        nextfree := Suc (nextfree d)\<rparr>)"

subsection \<open>Construction\<close>

text \<open>
  \<open>New\<close> allocates the two sentinels and links them to each other. The capacity of
  \<open>NewWithCapacity\<close> is only a size hint for the hash index.
\<close>

definition New :: "('k::default, 'v::default) OrderedDict" where
  "New =
     \<lparr>heap = [0 \<mapsto> \<lparr>prev = None, next = Some 1, key = default, val = default\<rparr>,
              1 \<mapsto> \<lparr>prev = Some 0, next = None, key = default, val = default\<rparr>],
      nextfree = 2, data = Map.empty, head = 0, tail = 1, len = 0\<rparr>"

definition NewWithCapacity :: "int \<Rightarrow> ('k::default, 'v::default) OrderedDict" where
  "NewWithCapacity capacity = New"

subsection \<open>List surgery\<close>

definition unlinkNode :: "('k, 'v) OrderedDict \<Rightarrow> addr \<Rightarrow> ('k, 'v) OrderedDict option" where
  "unlinkNode d n = do {
     nd \<leftarrow> heap d n;
     h1 \<leftarrow> set_next (heap d) (prev nd) (next nd);
     nd1 \<leftarrow> h1 n;
     h2 \<leftarrow> set_prev h1 (next nd1) (prev nd1);
     Some (d\<lparr>heap := h2\<rparr>)
   }"

definition linkToEnd :: "('k, 'v) OrderedDict \<Rightarrow> addr \<Rightarrow> ('k, 'v) OrderedDict option" where
  "linkToEnd d n = do {
     t \<leftarrow> heap d (tail d);
     let prevTail = prev t;
     h1 \<leftarrow> set_prev (heap d) (Some n) prevTail;
     h2 \<leftarrow> set_next h1 (Some n) (Some (tail d));
     h3 \<leftarrow> set_next h2 prevTail (Some n);
     h4 \<leftarrow> set_prev h3 (Some (tail d)) (Some n);
     Some (d\<lparr>heap := h4\<rparr>)
   }"

definition linkToStart :: "('k, 'v) OrderedDict \<Rightarrow> addr \<Rightarrow> ('k, 'v) OrderedDict option" where
  "linkToStart d n = do {
     hn \<leftarrow> heap d (head d);
     let prevHead = next hn;
     h1 \<leftarrow> set_next (heap d) (Some n) prevHead;
     h2 \<leftarrow> set_prev h1 (Some n) (Some (head d));
     h3 \<leftarrow> set_prev h2 prevHead (Some n);
     h4 \<leftarrow> set_next h3 (Some (head d)) (Some n);
     Some (d\<lparr>heap := h4\<rparr>)
   }"

definition linkAfter :: "('k, 'v) OrderedDict \<Rightarrow> addr \<Rightarrow> addr \<Rightarrow> ('k, 'v) OrderedDict option" where
  "linkAfter d n after = do {
     an \<leftarrow> heap d after;
     let afterNext = next an;
     h1 \<leftarrow> set_next (heap d) (Some n) afterNext;
     h2 \<leftarrow> set_prev h1 (Some n) (Some after);
     h3 \<leftarrow> set_next h2 (Some after) (Some n);
     h4 \<leftarrow> set_prev h3 afterNext (Some n);
     Some (d\<lparr>heap := h4\<rparr>)
   }"

subsection \<open>Insertion, lookup, deletion\<close>

definition Set :: "('k, 'v) OrderedDict \<Rightarrow> 'k \<Rightarrow> 'v \<Rightarrow> ('k, 'v) OrderedDict option" where
  "Set d k v =
     (case data d k of
        Some existing \<Rightarrow> do {
          h \<leftarrow> set_val (heap d) (Some existing) v;
          Some (d\<lparr>heap := h\<rparr>)
        }
      | None \<Rightarrow> do {
          let (n, d1) = alloc d k v;
          d2 \<leftarrow> linkToEnd d1 n;
          Some (d2\<lparr>data := (data d2)(k \<mapsto> n), len := len d2 + 1\<rparr>)
        })"

definition Get :: "('k, 'v::default) OrderedDict \<Rightarrow> 'k \<Rightarrow> ('v \<times> bool) option" where
  "Get d k =
     (case data d k of
        None \<Rightarrow> Some (default, False)
      | Some a \<Rightarrow> do { nd \<leftarrow> heap d a; Some (val nd, True) })"

definition Delete :: "('k, 'v::default) OrderedDict \<Rightarrow> 'k
    \<Rightarrow> (('v \<times> bool) \<times> ('k, 'v) OrderedDict) option" where
  "Delete d k =
     (case data d k of
        None \<Rightarrow> Some ((default, False), d)
      | Some a \<Rightarrow> do {
          d1 \<leftarrow> unlinkNode d a;
          nd \<leftarrow> heap d1 a;
          Some ((val nd, True), d1\<lparr>data := (data d1)(k := None), len := len d1 - 1\<rparr>)
        })"

definition Remove :: "('k, 'v::default) OrderedDict \<Rightarrow> 'k
    \<Rightarrow> (bool \<times> ('k, 'v) OrderedDict) option" where
  "Remove d k = do { ((_, ok), d') \<leftarrow> Delete d k; Some (ok, d') }"

definition Len :: "('k, 'v) OrderedDict \<Rightarrow> int" where
  "Len d = len d"

definition Has :: "('k, 'v) OrderedDict \<Rightarrow> 'k \<Rightarrow> bool" where
  "Has d k = (case data d k of None \<Rightarrow> False | Some _ \<Rightarrow> True)"

subsection \<open>Walking the list\<close>

text \<open>
  \<open>Keys\<close>, \<open>Values\<close> and \<open>All\<close> run \<open>for cur := o.head.next; cur != o.tail; cur = cur.next\<close>.
  Nothing in the loop bounds the number of iterations, so each loop is a partial function:
  the outer \<open>None\<close> says that the loop runs forever, \<open>Some None\<close> that it panics on a
  \<open>nil\<close> pointer, and \<open>Some (Some xs)\<close> that it returns \<open>xs\<close>.
\<close>

partial_function (option) keys_loop ::
  "('k, 'v) store \<Rightarrow> addr option \<Rightarrow> addr \<Rightarrow> 'k list \<Rightarrow> 'k list option option" where
  "keys_loop h cur t k =
     (if cur = Some t then Some (Some k)
      else (case load h cur of
              None \<Rightarrow> Some None
            | Some nd \<Rightarrow> keys_loop h (next nd) t (k @ [key nd])))"

definition Keys :: "('k, 'v) OrderedDict \<Rightarrow> 'k list option option" where
  "Keys d =
     (case heap d (head d) of
        None \<Rightarrow> Some None
      | Some hn \<Rightarrow> keys_loop (heap d) (next hn) (tail d) [])"

partial_function (option) values_loop ::
  "('k, 'v) store \<Rightarrow> addr option \<Rightarrow> addr \<Rightarrow> 'v list \<Rightarrow> 'v list option option" where
  "values_loop h cur t v =
     (if cur = Some t then Some (Some v)
      else (case load h cur of
              None \<Rightarrow> Some None
            | Some nd \<Rightarrow> values_loop h (next nd) t (v @ [val nd])))"

definition Values :: "('k, 'v) OrderedDict \<Rightarrow> 'v list option option" where
  "Values d =
     (case heap d (head d) of
        None \<Rightarrow> Some None
      | Some hn \<Rightarrow> values_loop (heap d) (next hn) (tail d) [])"

text \<open>
  \<open>All\<close> hands each pair to the consumer's \<open>yield\<close> and stops when \<open>yield\<close> answers
  false. What the consumer observes is the sequence of pairs it was given; the loop
  collects it in \<open>seen\<close>.
\<close>

partial_function (option) all_loop ::
  "('k, 'v) store \<Rightarrow> addr option \<Rightarrow> addr \<Rightarrow> ('k \<Rightarrow> 'v \<Rightarrow> bool) \<Rightarrow> ('k \<times> 'v) list
    \<Rightarrow> ('k \<times> 'v) list option option" where
  "all_loop h cur t yield seen =
     (if cur = Some t then Some (Some seen)
      else (case load h cur of
              None \<Rightarrow> Some None
            | Some nd \<Rightarrow>
                if \<not> yield (key nd) (val nd) then Some (Some (seen @ [(key nd, val nd)]))
                else all_loop h (next nd) t yield (seen @ [(key nd, val nd)])))"

definition All :: "('k, 'v) OrderedDict \<Rightarrow> ('k \<Rightarrow> 'v \<Rightarrow> bool) \<Rightarrow> ('k \<times> 'v) list option option" where
  "All d yield =
     (case heap d (head d) of
        None \<Rightarrow> Some None
      | Some hn \<Rightarrow> all_loop (heap d) (next hn) (tail d) yield [])"

subsection \<open>Clearing and reordering\<close>

definition Clear :: "('k::default, 'v::default) OrderedDict \<Rightarrow> ('k, 'v) OrderedDict" where
  "Clear d =
     (let newHead = nextfree d; newTail = Suc (nextfree d) in
      d\<lparr>heap := (heap d)
            (newHead \<mapsto> \<lparr>prev = None, next = Some newTail, key = default, val = default\<rparr>,
             newTail \<mapsto> \<lparr>prev = Some newHead, next = None, key = default, val = default\<rparr>),
        nextfree := Suc (Suc (nextfree d)),
        head := newHead, tail := newTail, len := 0, data := Map.empty\<rparr>)"

definition MoveToEnd :: "('k, 'v) OrderedDict \<Rightarrow> 'k \<Rightarrow> (bool \<times> ('k, 'v) OrderedDict) option" where
  "MoveToEnd d k =
     (case data d k of
        None \<Rightarrow> Some (False, d)
      | Some n \<Rightarrow> do {
          d1 \<leftarrow> unlinkNode d n;
          d2 \<leftarrow> linkToEnd d1 n;
          Some (True, d2)
        })"

definition MoveToStart :: "('k, 'v) OrderedDict \<Rightarrow> 'k \<Rightarrow> (bool \<times> ('k, 'v) OrderedDict) option" where
  "MoveToStart d k =
     (case data d k of
        None \<Rightarrow> Some (False, d)
      | Some n \<Rightarrow> do {
          d1 \<leftarrow> unlinkNode d n;
          d2 \<leftarrow> linkToStart d1 n;
          Some (True, d2)
        })"

definition MoveAfter :: "('k, 'v) OrderedDict \<Rightarrow> 'k \<Rightarrow> 'k
    \<Rightarrow> (bool \<times> ('k, 'v) OrderedDict) option" where
  "MoveAfter d k after =
     (case data d after of
        None \<Rightarrow> Some (False, d)
      | Some afterNode \<Rightarrow>
          (case data d k of
             None \<Rightarrow> Some (False, d)
           | Some n \<Rightarrow> do {
               d1 \<leftarrow> unlinkNode d n;
               d2 \<leftarrow> linkAfter d1 n afterNode;
               Some (True, d2)
             }))"

section \<open>The second implementation\<close>

text \<open>
  The source file holds a second implementation (\<open>package main\<close>) of \<open>New\<close>,
  \<open>NewWithCapacity\<close>, \<open>Set\<close>, \<open>Get\<close>, \<open>Delete\<close>, \<open>Remove\<close>, \<open>Len\<close>, \<open>Has\<close>, \<open>Keys\<close>,
  \<open>Values\<close> and \<open>All\<close> on the same two structs. Its names carry the prefix \<open>main\<close>
  here. It differs from the first in four places: \<open>Set\<close> links the new node itself,
  writing the four pointers in another order; \<open>Delete\<close> unlinks the node itself (and
  takes the read lock, see below); \<open>Len\<close> takes no lock; \<open>Has\<close> calls \<open>Get\<close>. The three
  walks are the same loops, so they use the loop functions above.
\<close>

definition main_New :: "('k::default, 'v::default) OrderedDict" where
  "main_New =
     \<lparr>heap = [0 \<mapsto> \<lparr>prev = None, next = Some 1, key = default, val = default\<rparr>,
              1 \<mapsto> \<lparr>prev = Some 0, next = None, key = default, val = default\<rparr>],
      nextfree = 2, data = Map.empty, head = 0, tail = 1, len = 0\<rparr>"

definition main_NewWithCapacity :: "int \<Rightarrow> ('k::default, 'v::default) OrderedDict" where
  "main_NewWithCapacity capacity = main_New"

definition main_Set :: "('k, 'v) OrderedDict \<Rightarrow> 'k \<Rightarrow> 'v \<Rightarrow> ('k, 'v) OrderedDict option" where
  "main_Set d k v =
     (case data d k of
        Some existing \<Rightarrow> do {
          h \<leftarrow> set_val (heap d) (Some existing) v;
          Some (d\<lparr>heap := h\<rparr>)
        }
      | None \<Rightarrow> do {
          let (n, d1) = alloc d k v;
          t \<leftarrow> heap d1 (tail d1);
          let lastTail = prev t;
          h1 \<leftarrow> set_prev (heap d1) (Some (tail d1)) (Some n);
          h2 \<leftarrow> set_next h1 lastTail (Some n);
          h3 \<leftarrow> set_next h2 (Some n) (Some (tail d1));
          h4 \<leftarrow> set_prev h3 (Some n) lastTail;
          Some (d1\<lparr>heap := h4, data := (data d1)(k \<mapsto> n), len := len d1 + 1\<rparr>)
        })"

definition main_Get :: "('k, 'v::default) OrderedDict \<Rightarrow> 'k \<Rightarrow> ('v \<times> bool) option" where
  "main_Get d k =
     (case data d k of
        None \<Rightarrow> Some (default, False)
      | Some a \<Rightarrow> do { nd \<leftarrow> heap d a; Some (val nd, True) })"

definition main_Delete :: "('k, 'v::default) OrderedDict \<Rightarrow> 'k
    \<Rightarrow> (('v \<times> bool) \<times> ('k, 'v) OrderedDict) option" where
  "main_Delete d k =
     (case data d k of
        None \<Rightarrow> Some ((default, False), d)
      | Some a \<Rightarrow> do {
          nd \<leftarrow> heap d a;
          h1 \<leftarrow> set_next (heap d) (prev nd) (next nd);
          nd1 \<leftarrow> h1 a;
          h2 \<leftarrow> set_prev h1 (next nd1) (prev nd1);
          nd2 \<leftarrow> h2 a;
          Some ((val nd2, True), d\<lparr>heap := h2, data := (data d)(k := None), len := len d - 1\<rparr>)
        })"

definition main_Remove :: "('k, 'v::default) OrderedDict \<Rightarrow> 'k
    \<Rightarrow> (bool \<times> ('k, 'v) OrderedDict) option" where
  "main_Remove d k = do { ((_, ok), d') \<leftarrow> main_Delete d k; Some (ok, d') }"

definition main_Len :: "('k, 'v) OrderedDict \<Rightarrow> int" where
  "main_Len d = len d"

definition main_Has :: "('k, 'v::default) OrderedDict \<Rightarrow> 'k \<Rightarrow> bool option" where
  "main_Has d k = do { (_, ok) \<leftarrow> main_Get d k; Some ok }"

definition main_Keys :: "('k, 'v) OrderedDict \<Rightarrow> 'k list option option" where
  "main_Keys d =
     (case heap d (head d) of
        None \<Rightarrow> Some None
      | Some hn \<Rightarrow> keys_loop (heap d) (next hn) (tail d) [])"

definition main_Values :: "('k, 'v) OrderedDict \<Rightarrow> 'v list option option" where
  "main_Values d =
     (case heap d (head d) of
        None \<Rightarrow> Some None
      | Some hn \<Rightarrow> values_loop (heap d) (next hn) (tail d) [])"

definition main_All :: "('k, 'v) OrderedDict \<Rightarrow> ('k \<Rightarrow> 'v \<Rightarrow> bool) \<Rightarrow> ('k \<times> 'v) list option option" where
  "main_All d yield =
     (case heap d (head d) of
        None \<Rightarrow> Some None
      | Some hn \<Rightarrow> all_loop (heap d) (next hn) (tail d) yield [])"

section \<open>Calls and traces\<close>

text \<open>
  A claim about every sequence of public operations needs the operations as data. A
  \<open>call\<close> names a public method with its arguments, a \<open>reply\<close> is what it returns, and
  \<open>exec\<close> runs one call: the outer \<open>None\<close> is a walk that never ends, \<open>Some None\<close> a
  panic, \<open>Some (Some (r, d'))\<close> the reply and the state after the call. \<open>trace\<close> runs
  a list of calls and records what a caller sees; it ends at the first call that panics or
  does not return. A state is \<open>reachable\<close> when a list of calls leads to it from \<open>New\<close>.
\<close>

datatype ('k, 'v) call =
    CallSet 'k 'v | CallGet 'k | CallHas 'k | CallDelete 'k | CallRemove 'k | CallLen
  | CallKeys | CallValues | CallAll "'k \<Rightarrow> 'v \<Rightarrow> bool" | CallClear
  | CallMoveToStart 'k | CallMoveToEnd 'k | CallMoveAfter 'k 'k

datatype ('k, 'v) reply =
    Done | Found 'v bool | Flag bool | Count int
  | KeyList "'k list" | ValueList "'v list" | Pairs "('k \<times> 'v) list"

datatype ('k, 'v) event = Returned "('k, 'v) reply" | Panicked | Diverged

fun exec :: "('k, 'v) call \<Rightarrow> ('k::default, 'v::default) OrderedDict
    \<Rightarrow> (('k, 'v) reply \<times> ('k, 'v) OrderedDict) option option" where
  "exec (CallSet k v) d = Some (map_option (\<lambda>d'. (Done, d')) (Set d k v))"
| "exec (CallGet k) d = Some (map_option (\<lambda>(v, ok). (Found v ok, d)) (Get d k))"
| "exec (CallHas k) d = Some (Some (Flag (Has d k), d))"
| "exec (CallDelete k) d = Some (map_option (\<lambda>((v, ok), d'). (Found v ok, d')) (Delete d k))"
| "exec (CallRemove k) d = Some (map_option (\<lambda>(ok, d'). (Flag ok, d')) (Remove d k))"
| "exec CallLen d = Some (Some (Count (Len d), d))"
| "exec CallKeys d = map_option (map_option (\<lambda>ks. (KeyList ks, d))) (Keys d)"
| "exec CallValues d = map_option (map_option (\<lambda>vs. (ValueList vs, d))) (Values d)"
| "exec (CallAll yield) d = map_option (map_option (\<lambda>ps. (Pairs ps, d))) (All d yield)"
| "exec CallClear d = Some (Some (Done, Clear d))"
| "exec (CallMoveToStart k) d = Some (map_option (\<lambda>(ok, d'). (Flag ok, d')) (MoveToStart d k))"
| "exec (CallMoveToEnd k) d = Some (map_option (\<lambda>(ok, d'). (Flag ok, d')) (MoveToEnd d k))"
| "exec (CallMoveAfter k after) d =
     Some (map_option (\<lambda>(ok, d'). (Flag ok, d')) (MoveAfter d k after))"

fun trace :: "('k, 'v) call list \<Rightarrow> ('k::default, 'v::default) OrderedDict
    \<Rightarrow> ('k, 'v) event list" where
  "trace [] d = []"
| "trace (c # cs) d =
     (case exec c d of
        None \<Rightarrow> [Diverged]
      | Some None \<Rightarrow> [Panicked]
      | Some (Some (r, d')) \<Rightarrow> Returned r # trace cs d')"

inductive reachable :: "('k::default, 'v::default) OrderedDict \<Rightarrow> bool" where
  fresh: "reachable New"
| step: "reachable d \<Longrightarrow> exec c d = Some (Some (r, d')) \<Longrightarrow> reachable d'"

text \<open>
  \<open>self_move\<close> holds of the one kind of call that the claims single out: \<open>MoveAfter\<close>
  with the same present key in both places.
\<close>

fun self_move :: "('k, 'v) call \<Rightarrow> ('k, 'v) OrderedDict \<Rightarrow> bool" where
  "self_move (CallMoveAfter k after) d = (k = after \<and> Has d k)"
| "self_move _ d = False"

text \<open>
  The calls that the second implementation has, and their execution by it.
\<close>

datatype ('k, 'v) main_call =
    MainSet 'k 'v | MainGet 'k | MainHas 'k | MainDelete 'k | MainRemove 'k | MainLen
  | MainKeys | MainValues | MainAll "'k \<Rightarrow> 'v \<Rightarrow> bool"

fun to_call :: "('k, 'v) main_call \<Rightarrow> ('k, 'v) call" where
  "to_call (MainSet k v) = CallSet k v"
| "to_call (MainGet k) = CallGet k"
| "to_call (MainHas k) = CallHas k"
| "to_call (MainDelete k) = CallDelete k"
| "to_call (MainRemove k) = CallRemove k"
| "to_call MainLen = CallLen"
| "to_call MainKeys = CallKeys"
| "to_call MainValues = CallValues"
| "to_call (MainAll yield) = CallAll yield"

fun main_exec :: "('k, 'v) main_call \<Rightarrow> ('k::default, 'v::default) OrderedDict
    \<Rightarrow> (('k, 'v) reply \<times> ('k, 'v) OrderedDict) option option" where
  "main_exec (MainSet k v) d = Some (map_option (\<lambda>d'. (Done, d')) (main_Set d k v))"
| "main_exec (MainGet k) d = Some (map_option (\<lambda>(v, ok). (Found v ok, d)) (main_Get d k))"
| "main_exec (MainHas k) d = Some (map_option (\<lambda>ok. (Flag ok, d)) (main_Has d k))"
| "main_exec (MainDelete k) d =
     Some (map_option (\<lambda>((v, ok), d'). (Found v ok, d')) (main_Delete d k))"
| "main_exec (MainRemove k) d = Some (map_option (\<lambda>(ok, d'). (Flag ok, d')) (main_Remove d k))"
| "main_exec MainLen d = Some (Some (Count (main_Len d), d))"
| "main_exec MainKeys d = map_option (map_option (\<lambda>ks. (KeyList ks, d))) (main_Keys d)"
| "main_exec MainValues d = map_option (map_option (\<lambda>vs. (ValueList vs, d))) (main_Values d)"
| "main_exec (MainAll yield) d = map_option (map_option (\<lambda>ps. (Pairs ps, d))) (main_All d yield)"

fun main_trace :: "('k, 'v) main_call list \<Rightarrow> ('k::default, 'v::default) OrderedDict
    \<Rightarrow> ('k, 'v) event list" where
  "main_trace [] d = []"
| "main_trace (c # cs) d =
     (case main_exec c d of
        None \<Rightarrow> [Diverged]
      | Some None \<Rightarrow> [Panicked]
      | Some (Some (r, d')) \<Rightarrow> Returned r # main_trace cs d')"

section \<open>Two callers of Delete\<close>

text \<open>
  \<open>Delete\<close> takes the lock, runs its statements and releases the lock when it returns
  (\<open>defer\<close>). To see what the lock is for, \<open>delete_step\<close> runs \<open>Delete\<close> one statement
  at a time: a caller is at one of the statements below, with the node it found as its
  local variable, and a step executes that statement on the shared container. The
  parameter is the mode in which the function takes the lock: \<open>Exclusive\<close> for
  \<open>o.mu.Lock()\<close> of the first implementation, \<open>Shared\<close> for \<open>o.mu.RLock()\<close> of the
  second. A step is \<open>None\<close> when the caller cannot move: the lock is not available, the
  statement panics, or the caller has returned. \<open>interleave\<close> runs several callers in the
  order a schedule gives; an execution in which the statements of two callers alternate
  is one of the executions the Go memory model allows.
\<close>

record rwmutex =
  readers :: nat
  writer :: bool

datatype lock_mode = Shared | Exclusive

definition unlocked :: rwmutex where
  "unlocked = \<lparr>readers = 0, writer = False\<rparr>"

definition acquire :: "lock_mode \<Rightarrow> rwmutex \<Rightarrow> rwmutex option" where
  "acquire m mu =
     (case m of
        Shared \<Rightarrow> if writer mu then None else Some (mu\<lparr>readers := Suc (readers mu)\<rparr>)
      | Exclusive \<Rightarrow> if writer mu \<or> readers mu \<noteq> 0 then None else Some (mu\<lparr>writer := True\<rparr>))"

definition release :: "lock_mode \<Rightarrow> rwmutex \<Rightarrow> rwmutex" where
  "release m mu =
     (case m of
        Shared \<Rightarrow> mu\<lparr>readers := readers mu - 1\<rparr>
      | Exclusive \<Rightarrow> mu\<lparr>writer := False\<rparr>)"

record ('k, 'v) guarded =
  mu :: rwmutex
  dict :: "('k, 'v) OrderedDict"

datatype ('k, 'v) deleting =
    AtLock 'k
  | AtLookup 'k
  | AtSetNext 'k addr
  | AtSetPrev 'k addr
  | AtDeleteKey 'k addr
  | AtDecrement addr
  | AtReturn addr
  | Returned_from "'v \<times> bool"

fun delete_step :: "lock_mode \<Rightarrow> ('k, 'v::default) deleting \<Rightarrow> ('k, 'v) guarded
    \<Rightarrow> (('k, 'v) deleting \<times> ('k, 'v) guarded) option" where
  "delete_step m (AtLock k) s =
     do { l \<leftarrow> acquire m (mu s); Some (AtLookup k, s\<lparr>mu := l\<rparr>) }"
| "delete_step m (AtLookup k) s =
     (case data (dict s) k of
        None \<Rightarrow> Some (Returned_from (default, False), s\<lparr>mu := release m (mu s)\<rparr>)
      | Some a \<Rightarrow> Some (AtSetNext k a, s))"
| "delete_step m (AtSetNext k a) s =
     do { nd \<leftarrow> heap (dict s) a;
          h \<leftarrow> set_next (heap (dict s)) (prev nd) (next nd);
          Some (AtSetPrev k a, s\<lparr>dict := (dict s)\<lparr>heap := h\<rparr>\<rparr>) }"
| "delete_step m (AtSetPrev k a) s =
     do { nd \<leftarrow> heap (dict s) a;
          h \<leftarrow> set_prev (heap (dict s)) (next nd) (prev nd);
          Some (AtDeleteKey k a, s\<lparr>dict := (dict s)\<lparr>heap := h\<rparr>\<rparr>) }"
| "delete_step m (AtDeleteKey k a) s =
     Some (AtDecrement a, s\<lparr>dict := (dict s)\<lparr>data := (data (dict s))(k := None)\<rparr>\<rparr>)"
| "delete_step m (AtDecrement a) s =
     Some (AtReturn a, s\<lparr>dict := (dict s)\<lparr>len := len (dict s) - 1\<rparr>\<rparr>)"
| "delete_step m (AtReturn a) s =
     do { nd \<leftarrow> heap (dict s) a;
          Some (Returned_from (val nd, True), s\<lparr>mu := release m (mu s)\<rparr>) }"
| "delete_step m (Returned_from r) s = None"

fun interleave :: "lock_mode \<Rightarrow> nat list \<Rightarrow> ('k, 'v::default) deleting list \<Rightarrow> ('k, 'v) guarded
    \<Rightarrow> (('k, 'v) deleting list \<times> ('k, 'v) guarded) option" where
  "interleave m [] ts s = Some (ts, s)"
| "interleave m (i # sched) ts s =
     (if i < length ts
      then (case delete_step m (ts ! i) s of
              None \<Rightarrow> None
            | Some (t', s') \<Rightarrow> interleave m sched (ts[i := t']) s')
      else None)"

text \<open>
  A caller is \<open>holding\<close> the lock between its acquire and its return. \<open>complete\<close> runs
  one caller alone until it returns (it has at most \<open>statements_left\<close> steps to go), and
  two callers are \<open>serial\<close> when the results and the final state are those of running
  the first to its return and then the second.
\<close>

fun holding :: "('k, 'v) deleting \<Rightarrow> bool" where
  "holding (AtLock k) = False"
| "holding (Returned_from r) = False"
| "holding _ = True"

fun statements_left :: "('k, 'v) deleting \<Rightarrow> nat" where
  "statements_left (AtLock k) = 7"
| "statements_left (AtLookup k) = 6"
| "statements_left (AtSetNext k a) = 5"
| "statements_left (AtSetPrev k a) = 4"
| "statements_left (AtDeleteKey k a) = 3"
| "statements_left (AtDecrement a) = 2"
| "statements_left (AtReturn a) = 1"
| "statements_left (Returned_from r) = 0"

function complete :: "lock_mode \<Rightarrow> ('k, 'v::default) deleting \<Rightarrow> ('k, 'v) guarded
    \<Rightarrow> (('v \<times> bool) \<times> ('k, 'v) guarded) option" where
  "complete m t s =
     (case t of
        Returned_from r \<Rightarrow> Some (r, s)
      | _ \<Rightarrow> (case delete_step m t s of
                None \<Rightarrow> None
              | Some (t', s') \<Rightarrow> complete m t' s'))"
  by pat_completeness auto
termination
  by (relation "measure (\<lambda>(m, t, s). statements_left t)")
     (auto simp: bind_eq_Some_conv split: option.splits)
declare complete.simps [simp del]

definition serial :: "lock_mode \<Rightarrow> ('k, 'v::default) deleting \<Rightarrow> ('k, 'v) deleting
    \<Rightarrow> ('k, 'v) guarded \<Rightarrow> ('v \<times> bool) \<Rightarrow> ('v \<times> bool) \<Rightarrow> ('k, 'v) guarded \<Rightarrow> bool" where
  "serial m t u s r q s' =
     (\<exists>sa. complete m t s = Some (r, sa) \<and> complete m u sa = Some (q, s'))"

section \<open>The invariant\<close>

text \<open>
  \<open>nx\<close>, \<open>pv\<close> and \<open>kv\<close> read the links and the contents of a store cell. \<open>links N P x ys\<close>
  says that \<open>ys\<close> follows \<open>x\<close> along \<open>N\<close> and that \<open>P\<close> leads back. A container is
  well formed with the data nodes \<open>as\<close> when \<open>head\<close>, \<open>as\<close> and \<open>tail\<close> are distinct
  and linked in both directions, the index maps exactly the keys of \<open>as\<close> to their nodes,
  the count is the length of \<open>as\<close>, and every allocated address is below \<open>nextfree\<close>.
  This is the invariant of the data model: index and list in one-to-one agreement, no
  cycle, unique keys, and the count equal to both.
\<close>

definition nx :: "('k, 'v) store \<Rightarrow> addr \<Rightarrow> addr option" where
  "nx h a = (case h a of None \<Rightarrow> None | Some n \<Rightarrow> next n)"

definition pv :: "('k, 'v) store \<Rightarrow> addr \<Rightarrow> addr option" where
  "pv h a = (case h a of None \<Rightarrow> None | Some n \<Rightarrow> prev n)"

definition kv :: "('k, 'v) store \<Rightarrow> addr \<Rightarrow> ('k \<times> 'v) option" where
  "kv h a = (case h a of None \<Rightarrow> None | Some n \<Rightarrow> Some (key n, val n))"

fun links :: "(addr \<Rightarrow> addr option) \<Rightarrow> (addr \<Rightarrow> addr option) \<Rightarrow> addr \<Rightarrow> addr list \<Rightarrow> bool" where
  "links N P x [] = True"
| "links N P x (y # ys) = (N x = Some y \<and> P y = Some x \<and> links N P y ys)"

definition dll :: "('k, 'v) OrderedDict \<Rightarrow> addr list \<Rightarrow> bool" where
  "dll d as = (distinct (head d # as @ [tail d])
     \<and> links (nx (heap d)) (pv (heap d)) (head d) (as @ [tail d]))"

definition well_formed :: "('k, 'v) OrderedDict \<Rightarrow> addr list \<Rightarrow> bool" where
  "well_formed d as = (dll d as
     \<and> (\<forall>k a. (data d k = Some a) = (a \<in> set as \<and> (\<exists>v. kv (heap d) a = Some (k, v))))
     \<and> len d = int (length as)
     \<and> (\<forall>a. heap d a \<noteq> None \<longrightarrow> a < nextfree d))"

definition invariant :: "('k, 'v) OrderedDict \<Rightarrow> bool" where
  "invariant d = (\<exists>as. well_formed d as)"

definition alloc_ok :: "('k, 'v) OrderedDict \<Rightarrow> bool" where
  "alloc_ok d = (\<forall>a. heap d a \<noteq> None \<longrightarrow> a < nextfree d)"

text \<open>
  \<open>MoveAfter\<close> with the same key twice breaks the invariant (see the claims), so it does
  not hold in every state that a caller can reach. What does hold there is \<open>indexed\<close>: each
  entry of the index points to an allocated node that holds its key. \<open>differ_at_key k h h'\<close>
  relates two stores whose cells have the same links and keys, and the same values except in
  nodes that hold \<open>k\<close>.
\<close>

definition indexed :: "('k, 'v) OrderedDict \<Rightarrow> bool" where
  "indexed d = (\<forall>k a. data d k = Some a \<longrightarrow> (\<exists>nd. heap d a = Some nd \<and> key nd = k))"

definition differ_at_key :: "'k \<Rightarrow> ('k, 'v) store \<Rightarrow> ('k, 'v) store \<Rightarrow> bool" where
  "differ_at_key k h h' =
     (\<forall>a. rel_option (\<lambda>n n'. next n' = next n \<and> key n' = key n
                              \<and> (key n \<noteq> k \<longrightarrow> val n' = val n)) (h a) (h' a))"

section \<open>Observations\<close>

text \<open>
  \<open>entries d as\<close> are the pairs stored in the nodes \<open>as\<close>. \<open>observe\<close> collects what the
  reading operations return; \<open>obs_of ps\<close> is what they return for a well-formed container
  with the entries \<open>ps\<close>. \<open>upto_stop yield ps\<close> are the pairs that \<open>All\<close> hands over: all
  of them up to and including the first one that \<open>yield\<close> answers with false.
\<close>

definition entry :: "('k, 'v) store \<Rightarrow> addr \<Rightarrow> 'k \<times> 'v" where
  "entry h a = the (kv h a)"

definition entries :: "('k, 'v) OrderedDict \<Rightarrow> addr list \<Rightarrow> ('k \<times> 'v) list" where
  "entries d as = map (entry (heap d)) as"

fun upto_stop :: "('k \<Rightarrow> 'v \<Rightarrow> bool) \<Rightarrow> ('k \<times> 'v) list \<Rightarrow> ('k \<times> 'v) list" where
  "upto_stop yield [] = []"
| "upto_stop yield ((k, v) # ps) = (k, v) # (if yield k v then upto_stop yield ps else [])"

definition observe :: "('k, 'v::default) OrderedDict \<Rightarrow>
    'k list option option \<times> 'v list option option \<times> int \<times> ('k \<Rightarrow> bool)
    \<times> ('k \<Rightarrow> ('v \<times> bool) option) \<times> (('k \<Rightarrow> 'v \<Rightarrow> bool) \<Rightarrow> ('k \<times> 'v) list option option)" where
  "observe d = (Keys d, Values d, Len d, Has d, Get d, All d)"

definition obs_of :: "('k \<times> 'v::default) list \<Rightarrow>
    'k list option option \<times> 'v list option option \<times> int \<times> ('k \<Rightarrow> bool)
    \<times> ('k \<Rightarrow> ('v \<times> bool) option) \<times> (('k \<Rightarrow> 'v \<Rightarrow> bool) \<Rightarrow> ('k \<times> 'v) list option option)" where
  "obs_of ps = (Some (Some (map fst ps)), Some (Some (map snd ps)), int (length ps),
     (\<lambda>k. k \<in> fst ` set ps),
     (\<lambda>k. case map_of ps k of None \<Rightarrow> Some (default, False) | Some v \<Rightarrow> Some (v, True)),
     (\<lambda>yield. Some (Some (upto_stop yield ps))))"

section \<open>Shifting addresses\<close>

text \<open>
  Two stores that differ by a shift of all addresses (and by cells that no pointer
  reaches) are indistinguishable to a caller. \<open>sim n d1 d2\<close> relates a container to
  its copy \<open>n\<close> addresses further up.
\<close>

definition shift :: "nat \<Rightarrow> addr option \<Rightarrow> addr option" where
  "shift n p = map_option (\<lambda>a. a + n) p"

definition shift_node :: "nat \<Rightarrow> ('k, 'v) node \<Rightarrow> ('k, 'v) node" where
  "shift_node n nd = nd\<lparr>prev := shift n (prev nd), next := shift n (next nd)\<rparr>"

definition hsim :: "nat \<Rightarrow> ('k, 'v) store \<Rightarrow> ('k, 'v) store \<Rightarrow> bool" where
  "hsim n h1 h2 = (\<forall>a. h2 (a + n) = map_option (shift_node n) (h1 a))"

definition sim :: "nat \<Rightarrow> ('k, 'v) OrderedDict \<Rightarrow> ('k, 'v) OrderedDict \<Rightarrow> bool" where
  "sim n d1 d2 = (hsim n (heap d1) (heap d2)
     \<and> nextfree d2 = nextfree d1 + n \<and> head d2 = head d1 + n \<and> tail d2 = tail d1 + n
     \<and> len d2 = len d1 \<and> (\<forall>k. data d2 k = shift n (data d1 k)))"

definition rsim :: "nat \<Rightarrow> 'r \<times> ('k, 'v) OrderedDict \<Rightarrow> 'r \<times> ('k, 'v) OrderedDict \<Rightarrow> bool" where
  "rsim n x y = (fst y = fst x \<and> sim n (snd x) (snd y))"

section \<open>Example containers\<close>

text \<open>
  The containers of the concrete scenarios: \<open>a, b, c\<close> with the values 1, 2, 3;
  \<open>a, b\<close> with the values 1, 2; and \<open>a, b\<close> after \<open>MoveAfter a a\<close>.
\<close>

definition abc :: "(string, int) OrderedDict" where
  "abc = the (do { d1 \<leftarrow> Set New ''a'' 1; d2 \<leftarrow> Set d1 ''b'' 2; Set d2 ''c'' 3 })"

definition ab :: "(string, int) OrderedDict" where
  "ab = the (do { d1 \<leftarrow> Set New ''a'' 1; Set d1 ''b'' 2 })"

definition ab_moved :: "(string, int) OrderedDict" where
  "ab_moved = snd (the (MoveAfter ab ''a'' ''a''))"

section \<open>Lemmas\<close>

subsection \<open>Linked segments\<close>

lemma links_append:
  "links N P x (ys @ zs) = (links N P x ys \<and> links N P (last (x # ys)) zs)"
  by (induction ys arbitrary: x) auto

lemma links_upd_nx:
  "a \<notin> set (butlast (x # ys)) \<Longrightarrow> links (N(a := q)) P x ys = links N P x ys"
  by (induction ys arbitrary: x) auto

lemma links_upd_pv:
  "a \<notin> set ys \<Longrightarrow> links N (P(a := q)) x ys = links N P x ys"
  by (induction ys arbitrary: x) auto

lemma last_notin_butlast: "distinct xs \<Longrightarrow> xs \<noteq> [] \<Longrightarrow> last xs \<notin> set (butlast xs)"
  by (induction xs) (auto dest: in_set_butlastD)

lemma links_remove:
  assumes "links N P x (ys @ a # s # rest)" and "distinct (x # ys @ a # s # rest)"
  shows "links (N(last (x # ys) := Some s)) (P(s := Some (last (x # ys)))) x (ys @ s # rest)"
proof -
  define p where "p = last (x # ys)"
  have p_in: "p \<in> set (x # ys)" unfolding p_def by (rule last_in_set) simp
  from assms(1) have A: "links N P x ys" and B: "links N P s rest"
    by (simp_all add: links_append)
  have "distinct (x # ys)" using assms(2) by simp
  then have p_nbl: "p \<notin> set (butlast (x # ys))"
    unfolding p_def by (rule last_notin_butlast) simp
  have s_notin: "s \<notin> set ys" "s \<notin> set rest" using assms(2) by auto
  have 1: "links (N(p := Some s)) (P(s := Some p)) x ys"
    using A p_nbl s_notin by (simp add: links_upd_nx links_upd_pv del: butlast.simps)
  have p_notin: "p \<notin> set (s # rest)" using p_in assms(2) by auto
  then have "p \<notin> set (butlast (s # rest))" by (meson in_set_butlastD)
  then have 2: "links (N(p := Some s)) (P(s := Some p)) s rest"
    using B s_notin by (simp add: links_upd_nx links_upd_pv del: butlast.simps)
  show ?thesis using 1 2 unfolding p_def[symmetric]
    by (simp add: links_append p_def[symmetric] del: last.simps)
qed

lemma links_insert:
  assumes "links N P x (ys @ s # rest)" and "distinct (x # ys @ s # rest)"
    and "n \<notin> set (x # ys @ s # rest)"
  shows "links (N(n := Some s, last (x # ys) := Some n))
               (P(n := Some (last (x # ys)), s := Some n)) x (ys @ n # s # rest)"
proof -
  define p where "p = last (x # ys)"
  have p_in: "p \<in> set (x # ys)" unfolding p_def by (rule last_in_set) simp
  from assms(1) have A: "links N P x ys" and B: "links N P s rest"
    by (simp_all add: links_append)
  have "distinct (x # ys)" using assms(2) by simp
  then have p_nbl: "p \<notin> set (butlast (x # ys))"
    unfolding p_def by (rule last_notin_butlast) simp
  have n_nbl: "n \<notin> set (butlast (x # ys))" using assms(3) by (auto dest: in_set_butlastD)
  have s_notin: "s \<notin> set ys" "s \<notin> set rest" "n \<notin> set ys" "n \<notin> set rest" "n \<noteq> s" "n \<noteq> p"
    using assms(2,3) p_in by auto
  have 1: "links (N(n := Some s, p := Some n)) (P(n := Some p, s := Some n)) x ys"
    using A p_nbl n_nbl s_notin by (simp add: links_upd_nx links_upd_pv del: butlast.simps)
  have p_notin: "p \<notin> set (s # rest)" using p_in assms(2) by auto
  then have "p \<notin> set (butlast (s # rest))" by (meson in_set_butlastD)
  moreover have "n \<notin> set (butlast (s # rest))" using assms(3) by (auto dest: in_set_butlastD)
  ultimately have 2: "links (N(n := Some s, p := Some n)) (P(n := Some p, s := Some n)) s rest"
    using B s_notin by (simp add: links_upd_nx links_upd_pv del: butlast.simps)
  show ?thesis using 1 2 s_notin p_notin unfolding p_def[symmetric]
    by (simp add: links_append p_def[symmetric] del: last.simps)
qed

subsection \<open>Pointer updates seen through the views\<close>

lemma links_nx_Some:
  "links N P x (ys @ [t]) \<Longrightarrow> a \<in> set (x # ys) \<Longrightarrow> \<exists>b. N a = Some b"
  by (induction ys arbitrary: x) auto

lemma links_pv_Some:
  "links N P x ys \<Longrightarrow> a \<in> set ys \<Longrightarrow> \<exists>b. P a = Some b"
  by (induction ys arbitrary: x) auto

lemma nx_Some_alloc: "nx h a = Some b \<Longrightarrow> h a \<noteq> None"
  by (auto simp: nx_def split: option.splits)

lemma pv_Some_alloc: "pv h a = Some b \<Longrightarrow> h a \<noteq> None"
  by (auto simp: pv_def split: option.splits)

lemma set_next_ok:
  assumes "h a \<noteq> None"
  shows "\<exists>h'. set_next h (Some a) q = Some h' \<and> nx h' = (nx h)(a := q) \<and> pv h' = pv h
           \<and> kv h' = kv h \<and> dom h' = dom h"
proof -
  from assms obtain n where n: "h a = Some n" by auto
  let ?h = "h(a \<mapsto> n\<lparr>next := q\<rparr>)"
  have "set_next h (Some a) q = Some ?h" using n by (simp add: set_next_def)
  moreover have "nx ?h = (nx h)(a := q)" by (rule ext) (simp add: nx_def)
  moreover have "pv ?h = pv h" using n by (intro ext) (simp add: pv_def)
  moreover have "kv ?h = kv h" using n by (intro ext) (simp add: kv_def)
  moreover have "dom ?h = dom h" using n by auto
  ultimately show ?thesis by blast
qed

lemma set_prev_ok:
  assumes "h a \<noteq> None"
  shows "\<exists>h'. set_prev h (Some a) q = Some h' \<and> pv h' = (pv h)(a := q) \<and> nx h' = nx h
           \<and> kv h' = kv h \<and> dom h' = dom h"
proof -
  from assms obtain n where n: "h a = Some n" by auto
  let ?h = "h(a \<mapsto> n\<lparr>prev := q\<rparr>)"
  have "set_prev h (Some a) q = Some ?h" using n by (simp add: set_prev_def)
  moreover have "pv ?h = (pv h)(a := q)" by (rule ext) (simp add: pv_def)
  moreover have "nx ?h = nx h" using n by (intro ext) (simp add: nx_def)
  moreover have "kv ?h = kv h" using n by (intro ext) (simp add: kv_def)
  moreover have "dom ?h = dom h" using n by auto
  ultimately show ?thesis by blast
qed

subsection \<open>List surgery on a well-formed list\<close>

lemma dll_alloc: "dll d as \<Longrightarrow> a \<in> set (head d # as @ [tail d]) \<Longrightarrow> heap d a \<noteq> None"
proof -
  assume d: "dll d as" and a: "a \<in> set (head d # as @ [tail d])"
  from d have l: "links (nx (heap d)) (pv (heap d)) (head d) (as @ [tail d])"
    by (simp add: dll_def)
  show ?thesis
  proof (cases "a = tail d")
    case True
    then show ?thesis using links_pv_Some[OF l, of a] by (auto dest: pv_Some_alloc)
  next
    case False
    then have "a \<in> set (head d # as)" using a by auto
    then show ?thesis using links_nx_Some[OF l, of a] by (auto dest: nx_Some_alloc)
  qed
qed

lemma unlinkNode_dll:
  assumes d: "dll d as" and a: "a \<in> set as"
  shows "\<exists>d1. unlinkNode d a = Some d1 \<and> dll d1 (remove1 a as) \<and> kv (heap d1) = kv (heap d)
           \<and> dom (heap d1) = dom (heap d) \<and> d1 = d\<lparr>heap := heap d1\<rparr>
           \<and> nx (heap d1) a = nx (heap d) a"
proof -
  let ?h = "heap d"
  from a obtain ys zs where as: "as = ys @ a # zs" by (auto dest: split_list)
  obtain s rest where sr: "zs @ [tail d] = s # rest" by (cases zs) auto
  define p where "p = last (head d # ys)"
  have dist: "distinct (head d # ys @ a # s # rest)"
    using d by (simp add: dll_def as sr[symmetric])
  have l: "links (nx ?h) (pv ?h) (head d) (ys @ a # s # rest)"
    using d by (simp add: dll_def as sr[symmetric])
  from l have na: "nx ?h a = Some s" and pa: "pv ?h a = Some p"
    by (simp_all add: links_append p_def)
  from l have ps: "pv ?h s = Some a" by (simp add: links_append)
  from l have np: "nx ?h p = Some a" by (simp add: links_append p_def)
  from na obtain nd where nd: "?h a = Some nd" by (auto dest: nx_Some_alloc)
  have nd_p: "prev nd = Some p" and nd_n: "next nd = Some s"
    using nd na pa by (simp_all add: nx_def pv_def)
  have "?h p \<noteq> None" using np by (rule nx_Some_alloc)
  from set_next_ok[of ?h p "Some s", OF this] obtain h1 where
    h1: "set_next ?h (Some p) (Some s) = Some h1" "nx h1 = (nx ?h)(p := Some s)"
        "pv h1 = pv ?h" "kv h1 = kv ?h" "dom h1 = dom ?h" by blast
  have "a \<in> dom h1" using nd h1(5) by auto
  then obtain nd1 where nd1: "h1 a = Some nd1" by auto
  have "nx h1 a = Some s" using na by (simp add: h1(2))
  then have nd1_n: "next nd1 = Some s" using nd1 by (simp add: nx_def)
  have "pv h1 a = Some p" using pa by (simp add: h1(3))
  then have nd1_p: "prev nd1 = Some p" using nd1 by (simp add: pv_def)
  have "s \<in> dom h1" using ps h1(5) by (auto dest: pv_Some_alloc)
  then have "h1 s \<noteq> None" by auto
  from set_prev_ok[of h1 s "Some p", OF this] obtain h2 where
    h2: "set_prev h1 (Some s) (Some p) = Some h2" "pv h2 = (pv h1)(s := Some p)"
        "nx h2 = nx h1" "kv h2 = kv h1" "dom h2 = dom h1" by blast
  let ?d1 = "d\<lparr>heap := h2\<rparr>"
  have run: "unlinkNode d a = Some ?d1"
    by (simp add: unlinkNode_def nd nd_p nd_n h1(1) nd1 nd1_n nd1_p h2(1))
  have "links (nx h2) (pv h2) (head d) (ys @ s # rest)"
    using links_remove[OF l dist] by (simp add: h2 h1 p_def)
  moreover have "remove1 a as = ys @ zs" using dist by (simp add: as remove1_append)
  ultimately have "dll ?d1 (remove1 a as)"
    using dist by (simp add: dll_def sr)
  moreover have "nx h2 a = nx ?h a" using na by (simp add: h2 h1)
  ultimately show ?thesis using run h1 h2 by auto
qed

lemma dll_insert_views:
  assumes d: "dll d (ys @ zs)" and n: "n \<notin> set (head d # ys @ zs @ [tail d])"
    and p: "p = last (head d # ys)" and s: "s = hd (zs @ [tail d])"
    and N: "nx h' = (nx (heap d))(n := Some s, p := Some n)"
    and P: "pv h' = (pv (heap d))(n := Some p, s := Some n)"
  shows "dll (d\<lparr>heap := h'\<rparr>) (ys @ n # zs)"
proof -
  obtain rest where sr: "zs @ [tail d] = s # rest" using s by (cases zs) auto
  have dist: "distinct (head d # ys @ s # rest)"
    using d by (simp add: dll_def sr[symmetric])
  have l: "links (nx (heap d)) (pv (heap d)) (head d) (ys @ s # rest)"
    using d by (simp add: dll_def sr[symmetric])
  have n': "n \<notin> set (head d # ys @ s # rest)" using n by (simp add: sr[symmetric])
  have "links (nx h') (pv h') (head d) (ys @ n # s # rest)"
    using links_insert[OF l dist n'] by (simp add: N P p)
  then have "links (nx h') (pv h') (head d) ((ys @ n # zs) @ [tail d])"
    by (simp add: sr)
  moreover have "distinct (head d # (ys @ n # zs) @ [tail d])"
    using dist n' by (simp add: sr) 
  ultimately show ?thesis by (simp add: dll_def)
qed

lemma dll_pv_tail: "dll d as \<Longrightarrow> pv (heap d) (tail d) = Some (last (head d # as))"
  by (simp add: dll_def links_append del: last.simps)

lemma dll_nx_head: "dll d as \<Longrightarrow> nx (heap d) (head d) = Some (hd (as @ [tail d]))"
  by (cases as) (simp_all add: dll_def)

lemma linkToEnd_dll:
  assumes d: "dll d as" and n: "n \<notin> set (head d # as @ [tail d])" and an: "heap d n \<noteq> None"
  shows "\<exists>d2. linkToEnd d n = Some d2 \<and> dll d2 (as @ [n]) \<and> kv (heap d2) = kv (heap d)
           \<and> dom (heap d2) = dom (heap d) \<and> d2 = d\<lparr>heap := heap d2\<rparr>"
proof -
  let ?h = "heap d"
  define p where "p = last (head d # as)"
  have "?h (tail d) \<noteq> None" using dll_alloc[OF d, of "tail d"] by simp
  then obtain t where t: "?h (tail d) = Some t" by auto
  have pt: "prev t = Some p" using dll_pv_tail[OF d] t by (simp add: pv_def p_def)
  from set_prev_ok[of ?h n "Some p", OF an] obtain h1 where
    h1: "set_prev ?h (Some n) (Some p) = Some h1" "pv h1 = (pv ?h)(n := Some p)"
        "nx h1 = nx ?h" "kv h1 = kv ?h" "dom h1 = dom ?h" by blast
  have "h1 n \<noteq> None" using an h1(5) by (metis domIff)
  from set_next_ok[of h1 n "Some (tail d)", OF this] obtain h2 where
    h2: "set_next h1 (Some n) (Some (tail d)) = Some h2" "nx h2 = (nx h1)(n := Some (tail d))"
        "pv h2 = pv h1" "kv h2 = kv h1" "dom h2 = dom h1" by blast
  have "p \<in> set (head d # as)" unfolding p_def by (rule last_in_set) simp
  then have "?h p \<noteq> None" using dll_alloc[OF d, of p] by auto
  then have "h2 p \<noteq> None" using h1(5) h2(5) by (metis domIff)
  from set_next_ok[of h2 p "Some n", OF this] obtain h3 where
    h3: "set_next h2 (Some p) (Some n) = Some h3" "nx h3 = (nx h2)(p := Some n)"
        "pv h3 = pv h2" "kv h3 = kv h2" "dom h3 = dom h2" by blast
  have "h3 (tail d) \<noteq> None" using t h1(5) h2(5) h3(5) by (metis domIff option.distinct(1))
  from set_prev_ok[of h3 "tail d" "Some n", OF this] obtain h4 where
    h4: "set_prev h3 (Some (tail d)) (Some n) = Some h4" "pv h4 = (pv h3)(tail d := Some n)"
        "nx h4 = nx h3" "kv h4 = kv h3" "dom h4 = dom h3" by blast
  have run: "linkToEnd d n = Some (d\<lparr>heap := h4\<rparr>)"
    by (simp add: linkToEnd_def t pt h1(1) h2(1) h3(1) h4(1))
  have "dll (d\<lparr>heap := h4\<rparr>) (as @ n # [])"
  proof (rule dll_insert_views[where p = p and s = "tail d"])
    show "dll d (as @ [])" using d by simp
    show "n \<notin> set (head d # as @ [] @ [tail d])" using n by simp
    show "p = last (head d # as)" by (simp add: p_def)
    show "tail d = hd ([] @ [tail d])" by simp
    show "nx h4 = (nx ?h)(n := Some (tail d), p := Some n)" by (simp add: h4 h3 h2 h1)
    show "pv h4 = (pv ?h)(n := Some p, tail d := Some n)" by (simp add: h4 h3 h2 h1)
  qed
  then show ?thesis using run h1 h2 h3 h4 by auto
qed

lemma linkToStart_dll:
  assumes d: "dll d as" and n: "n \<notin> set (head d # as @ [tail d])" and an: "heap d n \<noteq> None"
  shows "\<exists>d2. linkToStart d n = Some d2 \<and> dll d2 (n # as) \<and> kv (heap d2) = kv (heap d)
           \<and> dom (heap d2) = dom (heap d) \<and> d2 = d\<lparr>heap := heap d2\<rparr>"
proof -
  let ?h = "heap d"
  define s where "s = hd (as @ [tail d])"
  have "?h (head d) \<noteq> None" using dll_alloc[OF d, of "head d"] by simp
  then obtain hn where hn: "?h (head d) = Some hn" by auto
  have nh: "next hn = Some s" using dll_nx_head[OF d] hn by (simp add: nx_def s_def)
  from set_next_ok[of ?h n "Some s", OF an] obtain h1 where
    h1: "set_next ?h (Some n) (Some s) = Some h1" "nx h1 = (nx ?h)(n := Some s)"
        "pv h1 = pv ?h" "kv h1 = kv ?h" "dom h1 = dom ?h" by blast
  have "h1 n \<noteq> None" using an h1(5) by (metis domIff)
  from set_prev_ok[of h1 n "Some (head d)", OF this] obtain h2 where
    h2: "set_prev h1 (Some n) (Some (head d)) = Some h2" "pv h2 = (pv h1)(n := Some (head d))"
        "nx h2 = nx h1" "kv h2 = kv h1" "dom h2 = dom h1" by blast
  have "s \<in> set (as @ [tail d])" unfolding s_def by (rule hd_in_set) simp
  then have "?h s \<noteq> None" using dll_alloc[OF d, of s] by auto
  then have "h2 s \<noteq> None" using h1(5) h2(5) by (metis domIff)
  from set_prev_ok[of h2 s "Some n", OF this] obtain h3 where
    h3: "set_prev h2 (Some s) (Some n) = Some h3" "pv h3 = (pv h2)(s := Some n)"
        "nx h3 = nx h2" "kv h3 = kv h2" "dom h3 = dom h2" by blast
  have "h3 (head d) \<noteq> None" using hn h1(5) h2(5) h3(5) by (metis domIff option.distinct(1))
  from set_next_ok[of h3 "head d" "Some n", OF this] obtain h4 where
    h4: "set_next h3 (Some (head d)) (Some n) = Some h4" "nx h4 = (nx h3)(head d := Some n)"
        "pv h4 = pv h3" "kv h4 = kv h3" "dom h4 = dom h3" by blast
  have run: "linkToStart d n = Some (d\<lparr>heap := h4\<rparr>)"
    by (simp add: linkToStart_def hn nh h1(1) h2(1) h3(1) h4(1))
  have "dll (d\<lparr>heap := h4\<rparr>) ([] @ n # as)"
  proof (rule dll_insert_views[where p = "head d" and s = s])
    show "dll d ([] @ as)" using d by simp
    show "n \<notin> set (head d # [] @ as @ [tail d])" using n by simp
    show "head d = last (head d # [])" by simp
    show "s = hd (as @ [tail d])" by (simp add: s_def)
    show "nx h4 = (nx ?h)(n := Some s, head d := Some n)" by (simp add: h4 h3 h2 h1)
    show "pv h4 = (pv ?h)(n := Some (head d), s := Some n)" by (simp add: h4 h3 h2 h1)
  qed
  then show ?thesis using run h1 h2 h3 h4 by auto
qed

lemma linkAfter_dll:
  assumes d: "dll d (ys @ b # zs)" and n: "n \<notin> set (head d # ys @ b # zs @ [tail d])"
    and an: "heap d n \<noteq> None"
  shows "\<exists>d2. linkAfter d n b = Some d2 \<and> dll d2 (ys @ b # n # zs) \<and> kv (heap d2) = kv (heap d)
           \<and> dom (heap d2) = dom (heap d) \<and> d2 = d\<lparr>heap := heap d2\<rparr>"
proof -
  let ?h = "heap d"
  define s where "s = hd (zs @ [tail d])"
  obtain rest where sr: "zs @ [tail d] = s # rest" unfolding s_def by (cases zs) auto
  have "?h b \<noteq> None" using dll_alloc[OF d, of b] by simp
  then obtain bn where bn: "?h b = Some bn" by auto
  have "links (nx ?h) (pv ?h) (head d) (ys @ b # s # rest)"
    using d by (simp add: dll_def sr[symmetric])
  then have "nx ?h b = Some s" by (simp add: links_append)
  then have nb: "next bn = Some s" using bn by (simp add: nx_def)
  from set_next_ok[of ?h n "Some s", OF an] obtain h1 where
    h1: "set_next ?h (Some n) (Some s) = Some h1" "nx h1 = (nx ?h)(n := Some s)"
        "pv h1 = pv ?h" "kv h1 = kv ?h" "dom h1 = dom ?h" by blast
  have "h1 n \<noteq> None" using an h1(5) by (metis domIff)
  from set_prev_ok[of h1 n "Some b", OF this] obtain h2 where
    h2: "set_prev h1 (Some n) (Some b) = Some h2" "pv h2 = (pv h1)(n := Some b)"
        "nx h2 = nx h1" "kv h2 = kv h1" "dom h2 = dom h1" by blast
  have "h2 b \<noteq> None" using bn h1(5) h2(5) by (metis domIff option.distinct(1))
  from set_next_ok[of h2 b "Some n", OF this] obtain h3 where
    h3: "set_next h2 (Some b) (Some n) = Some h3" "nx h3 = (nx h2)(b := Some n)"
        "pv h3 = pv h2" "kv h3 = kv h2" "dom h3 = dom h2" by blast
  have "s \<in> set (zs @ [tail d])" unfolding s_def by (rule hd_in_set) simp
  then have "?h s \<noteq> None" using dll_alloc[OF d, of s] by auto
  then have "h3 s \<noteq> None" using h1(5) h2(5) h3(5) by (metis domIff)
  from set_prev_ok[of h3 s "Some n", OF this] obtain h4 where
    h4: "set_prev h3 (Some s) (Some n) = Some h4" "pv h4 = (pv h3)(s := Some n)"
        "nx h4 = nx h3" "kv h4 = kv h3" "dom h4 = dom h3" by blast
  have run: "linkAfter d n b = Some (d\<lparr>heap := h4\<rparr>)"
    by (simp add: linkAfter_def bn nb h1(1) h2(1) h3(1) h4(1))
  have "dll (d\<lparr>heap := h4\<rparr>) ((ys @ [b]) @ n # zs)"
  proof (rule dll_insert_views[where p = b and s = s])
    show "dll d ((ys @ [b]) @ zs)" using d by simp
    show "n \<notin> set (head d # (ys @ [b]) @ zs @ [tail d])" using n by simp
    show "b = last (head d # ys @ [b])" by simp
    show "s = hd (zs @ [tail d])" by (simp add: s_def)
    show "nx h4 = (nx ?h)(n := Some s, b := Some n)" by (simp add: h4 h3 h2 h1)
    show "pv h4 = (pv ?h)(n := Some b, s := Some n)" by (simp add: h4 h3 h2 h1)
  qed
  then show ?thesis using run h1 h2 h3 h4 by auto
qed

subsection \<open>The walks\<close>

lemma keys_loop_links:
  "links (nx h) P x (as @ [t]) \<Longrightarrow> t \<notin> set as \<Longrightarrow>
   keys_loop h (nx h x) t acc = Some (Some (acc @ map (\<lambda>a. fst (entry h a)) as))"
proof (induction as arbitrary: x acc)
  case Nil
  then show ?case by (subst keys_loop.simps) simp
next
  case (Cons a as)
  from Cons.prems have xa: "nx h x = Some a" and at: "a \<noteq> t"
    and l: "links (nx h) P a (as @ [t])" and t: "t \<notin> set as" by auto
  from links_nx_Some[OF l, of a] obtain nd where nd: "h a = Some nd"
    by (auto dest: nx_Some_alloc)
  have e: "entry h a = (key nd, val nd)" by (simp add: entry_def kv_def nd)
  have n: "next nd = nx h a" by (simp add: nx_def nd)
  show ?case
    by (subst keys_loop.simps) (simp add: xa at load_def nd n Cons.IH[OF l t] e)
qed

lemma values_loop_links:
  "links (nx h) P x (as @ [t]) \<Longrightarrow> t \<notin> set as \<Longrightarrow>
   values_loop h (nx h x) t acc = Some (Some (acc @ map (\<lambda>a. snd (entry h a)) as))"
proof (induction as arbitrary: x acc)
  case Nil
  then show ?case by (subst values_loop.simps) simp
next
  case (Cons a as)
  from Cons.prems have xa: "nx h x = Some a" and at: "a \<noteq> t"
    and l: "links (nx h) P a (as @ [t])" and t: "t \<notin> set as" by auto
  from links_nx_Some[OF l, of a] obtain nd where nd: "h a = Some nd"
    by (auto dest: nx_Some_alloc)
  have e: "entry h a = (key nd, val nd)" by (simp add: entry_def kv_def nd)
  have n: "next nd = nx h a" by (simp add: nx_def nd)
  show ?case
    by (subst values_loop.simps) (simp add: xa at load_def nd n Cons.IH[OF l t] e)
qed

lemma all_loop_links:
  "links (nx h) P x (as @ [t]) \<Longrightarrow> t \<notin> set as \<Longrightarrow>
   all_loop h (nx h x) t yield seen = Some (Some (seen @ upto_stop yield (map (entry h) as)))"
proof (induction as arbitrary: x seen)
  case Nil
  then show ?case by (subst all_loop.simps) simp
next
  case (Cons a as)
  from Cons.prems have xa: "nx h x = Some a" and at: "a \<noteq> t"
    and l: "links (nx h) P a (as @ [t])" and t: "t \<notin> set as" by auto
  from links_nx_Some[OF l, of a] obtain nd where nd: "h a = Some nd"
    by (auto dest: nx_Some_alloc)
  have e: "entry h a = (key nd, val nd)" by (simp add: entry_def kv_def nd)
  have n: "next nd = nx h a" by (simp add: nx_def nd)
  show ?case
    by (subst all_loop.simps) (simp add: xa at load_def nd n Cons.IH[OF l t] e)
qed

lemma fwd_head_node:
  assumes "links (nx (heap d)) P (head d) (as @ [tail d])"
  shows "\<exists>hn. heap d (head d) = Some hn \<and> next hn = nx (heap d) (head d)"
proof -
  from links_nx_Some[OF assms, of "head d"] obtain b where "nx (heap d) (head d) = Some b"
    by auto
  then show ?thesis by (auto simp: nx_def split: option.splits)
qed

lemma fwd_Keys:
  assumes "links (nx (heap d)) P (head d) (as @ [tail d])" and "tail d \<notin> set as"
  shows "Keys d = Some (Some (map fst (entries d as)))"
  using fwd_head_node[OF assms(1)] keys_loop_links[OF assms, of "[]"]
  by (auto simp: Keys_def entries_def)

lemma fwd_Values:
  assumes "links (nx (heap d)) P (head d) (as @ [tail d])" and "tail d \<notin> set as"
  shows "Values d = Some (Some (map snd (entries d as)))"
  using fwd_head_node[OF assms(1)] values_loop_links[OF assms, of "[]"]
  by (auto simp: Values_def entries_def)

lemma fwd_All:
  assumes "links (nx (heap d)) P (head d) (as @ [tail d])" and "tail d \<notin> set as"
  shows "All d yield = Some (Some (upto_stop yield (entries d as)))"
  using fwd_head_node[OF assms(1)] all_loop_links[OF assms, of yield "[]"]
  by (auto simp: All_def entries_def)

lemma dll_Keys: "dll d as \<Longrightarrow> Keys d = Some (Some (map fst (entries d as)))"
  by (rule fwd_Keys[where P = "pv (heap d)"]) (simp_all add: dll_def)

lemma dll_Values: "dll d as \<Longrightarrow> Values d = Some (Some (map snd (entries d as)))"
  by (rule fwd_Values[where P = "pv (heap d)"]) (simp_all add: dll_def)

lemma dll_All: "dll d as \<Longrightarrow> All d yield = Some (Some (upto_stop yield (entries d as)))"
  by (rule fwd_All[where P = "pv (heap d)"]) (simp_all add: dll_def)

subsection \<open>The operations keep the invariant\<close>

lemma wf_dll: "well_formed d as \<Longrightarrow> dll d as" by (simp add: well_formed_def)

lemma wf_relink:
  assumes "well_formed d as" and "dll d' as'" and "set as' = set as" and "length as' = length as"
    and "kv (heap d') = kv (heap d)" and "dom (heap d') = dom (heap d)"
    and "d' = d\<lparr>heap := heap d'\<rparr>"
  shows "well_formed d' as'"
proof -
  have eq: "data d' = data d" "len d' = len d" "nextfree d' = nextfree d"
    by (subst assms(7), simp)+
  have "\<And>a. (heap d' a \<noteq> None) = (heap d a \<noteq> None)"
    using assms(6) by (metis domIff)
  then show ?thesis using assms(1-5) by (simp add: well_formed_def eq)
qed

lemma nx_upd: "nx (h(a \<mapsto> n)) = (nx h)(a := next n)" by (rule ext) (simp add: nx_def)
lemma pv_upd: "pv (h(a \<mapsto> n)) = (pv h)(a := prev n)" by (rule ext) (simp add: pv_def)
lemma kv_upd: "kv (h(a \<mapsto> n)) = (kv h)(a \<mapsto> (key n, val n))" by (rule ext) (simp add: kv_def)

lemma wf_fresh:
  assumes "well_formed d as"
  shows "heap d (nextfree d) = None" and "nextfree d \<notin> set (head d # as @ [tail d])"
proof -
  show 1: "heap d (nextfree d) = None" using assms by (auto simp: well_formed_def)
  show "nextfree d \<notin> set (head d # as @ [tail d])"
    using dll_alloc[OF wf_dll[OF assms], of "nextfree d"] 1 by blast
qed

lemma wf_New: "well_formed New []"
  by (auto simp: well_formed_def dll_def New_def nx_def pv_def kv_def)

lemma wf_Clear:
  assumes "\<forall>a. heap d a \<noteq> None \<longrightarrow> a < nextfree d"
  shows "well_formed (Clear d) []"
  using assms by (auto simp: well_formed_def dll_def Clear_def Let_def nx_def pv_def kv_def less_Suc_eq)

lemma wf_index_iff:
  "well_formed d as \<Longrightarrow> (data d k = Some a) = (a \<in> set as \<and> (\<exists>v. kv (heap d) a = Some (k, v)))"
  by (simp add: well_formed_def)

lemma wf_index_in: "well_formed d as \<Longrightarrow> data d k = Some a \<Longrightarrow> a \<in> set as"
  by (auto simp: well_formed_def)

lemma wf_index_kv: "well_formed d as \<Longrightarrow> data d k = Some a \<Longrightarrow> \<exists>v. kv (heap d) a = Some (k, v)"
  by (auto simp: well_formed_def)

lemma wf_Set_new:
  assumes w: "well_formed d as" and k: "data d k = None"
  shows "\<exists>d'. Set d k v = Some d' \<and> well_formed d' (as @ [nextfree d])
           \<and> kv (heap d') = (kv (heap d))(nextfree d \<mapsto> (k, v))
           \<and> data d' = (data d)(k \<mapsto> nextfree d) \<and> nextfree d' = Suc (nextfree d)
           \<and> head d' = head d \<and> tail d' = tail d
           \<and> dom (heap d') = insert (nextfree d) (dom (heap d)) \<and> len d' = len d + 1"
proof -
  define n where "n = nextfree d"
  define d1 where "d1 = snd (alloc d k v)"
  have al: "alloc d k v = (n, d1)" by (simp add: d1_def n_def alloc_def)
  have d1: "d1 = d\<lparr>heap := (heap d)(n \<mapsto> \<lparr>prev = None, next = None, key = k, val = v\<rparr>),
              nextfree := Suc n\<rparr>"
    by (simp add: d1_def alloc_def n_def)
  have fresh: "heap d n = None" "n \<notin> set (head d # as @ [tail d])"
    using wf_fresh[OF w] by (simp_all add: n_def)
  have dl: "dll d as" using w by (rule wf_dll)
  have "n \<notin> set (butlast (head d # as @ [tail d]))" using fresh(2) by (meson in_set_butlastD)
  then have dl1: "dll d1 as"
    using dl fresh(2) by (simp add: dll_def d1 nx_upd pv_upd links_upd_nx links_upd_pv del: butlast.simps)
  have n1: "n \<notin> set (head d1 # as @ [tail d1])" using fresh(2) by (simp add: d1)
  have a1: "heap d1 n \<noteq> None" by (simp add: d1)
  from linkToEnd_dll[OF dl1 n1 a1] obtain d2 where
    d2: "linkToEnd d1 n = Some d2" "dll d2 (as @ [n])" "kv (heap d2) = kv (heap d1)"
        "dom (heap d2) = dom (heap d1)" "d2 = d1\<lparr>heap := heap d2\<rparr>" by blast
  let ?d' = "d2\<lparr>data := (data d2)(k \<mapsto> n), len := len d2 + 1\<rparr>"
  have run: "Set d k v = Some ?d'" by (simp add: Set_def k al d2(1))
  have f2: "data d2 = data d" "len d2 = len d" "nextfree d2 = Suc n" "head d2 = head d" "tail d2 = tail d"
    by (subst d2(5), simp add: d1)+
  have kv2: "kv (heap d2) = (kv (heap d))(n \<mapsto> (k, v))" by (simp add: d2(3) d1 kv_upd)
  have bound: "\<forall>a. heap d2 a \<noteq> None \<longrightarrow> a < Suc n"
  proof (intro allI impI)
    fix a assume "heap d2 a \<noteq> None"
    then have "a \<in> dom (heap d1)" using d2(4) by auto
    then have "a = n \<or> heap d a \<noteq> None" by (auto simp: d1 split: if_splits)
    then show "a < Suc n" using w by (auto simp: well_formed_def n_def)
  qed
  have nokey: "\<And>a v'. a \<in> set as \<Longrightarrow> kv (heap d) a \<noteq> Some (k, v')"
  proof
    fix a v' assume "a \<in> set as" "kv (heap d) a = Some (k, v')"
    then have "data d k = Some a" using wf_index_iff[OF w, of k a] by blast
    then show False using k by simp
  qed
  have nas: "n \<notin> set as" using fresh(2) by simp
  have idx: "\<forall>k' a. (((data d2)(k \<mapsto> n)) k' = Some a)
     = (a \<in> set (as @ [n]) \<and> (\<exists>v'. kv (heap d2) a = Some (k', v')))"
  proof (intro allI)
    fix k' a
    show "(((data d2)(k \<mapsto> n)) k' = Some a)
       = (a \<in> set (as @ [n]) \<and> (\<exists>v'. kv (heap d2) a = Some (k', v')))"
    proof (cases "a = n")
      case True
      then show ?thesis using w nas by (auto simp: f2 kv2 well_formed_def)
    next
      case False
      then show ?thesis using w nokey by (auto simp: f2 kv2 well_formed_def)
    qed
  qed
  have "well_formed ?d' (as @ [n])"
    using d2(2) idx bound w by (simp add: well_formed_def dll_def f2)
  moreover have "dom (heap d2) = insert n (dom (heap d))" by (simp add: d2(4) d1)
  ultimately show ?thesis using run kv2 f2 by (auto simp: n_def)
qed

lemma set_val_ok:
  assumes "h a = Some n"
  shows "set_val h (Some a) v = Some (h(a \<mapsto> n\<lparr>val := v\<rparr>))"
    and "nx (h(a \<mapsto> n\<lparr>val := v\<rparr>)) = nx h" and "pv (h(a \<mapsto> n\<lparr>val := v\<rparr>)) = pv h"
    and "kv (h(a \<mapsto> n\<lparr>val := v\<rparr>)) = (kv h)(a \<mapsto> (key n, v))"
    and "dom (h(a \<mapsto> n\<lparr>val := v\<rparr>)) = dom h"
  using assms by (auto simp: set_val_def nx_def pv_def kv_def fun_eq_iff)

lemma wf_Set_existing:
  assumes w: "well_formed d as" and k: "data d k = Some a"
  shows "\<exists>d'. Set d k v = Some d' \<and> well_formed d' as
           \<and> kv (heap d') = (kv (heap d))(a \<mapsto> (k, v))
           \<and> data d' = data d \<and> nextfree d' = nextfree d
           \<and> head d' = head d \<and> tail d' = tail d
           \<and> (\<exists>nd. heap d a = Some nd \<and> d' = d\<lparr>heap := (heap d)(a \<mapsto> nd\<lparr>val := v\<rparr>)\<rparr>)"
proof -
  from wf_index_kv[OF w k] obtain v0 where v0: "kv (heap d) a = Some (k, v0)" by blast
  then obtain nd where nd: "heap d a = Some nd" "key nd = k"
    by (auto simp: kv_def split: option.splits)
  let ?h = "(heap d)(a \<mapsto> nd\<lparr>val := v\<rparr>)"
  let ?d' = "d\<lparr>heap := ?h\<rparr>"
  note sv = set_val_ok[where h = "heap d" and a = a and n = nd and v = v, OF nd(1)]
  have run: "Set d k v = Some ?d'" by (simp add: Set_def k sv(1))
  have kv': "kv ?h = (kv (heap d))(a \<mapsto> (k, v))" using sv(4) nd(2) by simp
  have "dll ?d' as" using wf_dll[OF w] by (simp add: dll_def sv(2,3))
  moreover have "\<forall>k' b. (data d k' = Some b) = (b \<in> set as \<and> (\<exists>v'. kv ?h b = Some (k', v')))"
    unfolding kv' using w v0 by (auto simp: well_formed_def)
  moreover have "\<forall>b. ?h b \<noteq> None \<longrightarrow> b < nextfree d"
    using w nd(1) by (auto simp: well_formed_def)
  ultimately have "well_formed ?d' as" using w by (simp add: well_formed_def)
  then show ?thesis using run kv' nd(1) by auto
qed

lemma wf_distinct: "well_formed d as \<Longrightarrow> distinct as" by (simp add: well_formed_def dll_def)

lemma length_remove1_int: "a \<in> set as \<Longrightarrow> int (length (remove1 a as)) = int (length as) - 1"
  by (induction as) auto

lemma length_remove1_Suc: "a \<in> set as \<Longrightarrow> Suc (length (remove1 a as)) = length as"
  by (induction as) auto

lemma wf_Delete:
  assumes w: "well_formed d as" and k: "data d k = Some a"
  shows "\<exists>d' v. Delete d k = Some ((v, True), d') \<and> kv (heap d) a = Some (k, v)
           \<and> well_formed d' (remove1 a as) \<and> kv (heap d') = kv (heap d)
           \<and> data d' = (data d)(k := None)"
proof -
  have a: "a \<in> set as" using wf_index_in[OF w k] .
  from wf_index_kv[OF w k] obtain v where v: "kv (heap d) a = Some (k, v)" by blast
  from unlinkNode_dll[OF wf_dll[OF w] a] obtain d1 where
    d1: "unlinkNode d a = Some d1" "dll d1 (remove1 a as)" "kv (heap d1) = kv (heap d)"
        "dom (heap d1) = dom (heap d)" "d1 = d\<lparr>heap := heap d1\<rparr>" by blast
  have "kv (heap d1) a = Some (k, v)" using v by (simp add: d1(3))
  then obtain nd where nd: "heap d1 a = Some nd" "val nd = v"
    by (auto simp: kv_def split: option.splits)
  let ?d' = "d1\<lparr>data := (data d1)(k := None), len := len d1 - 1\<rparr>"
  have run: "Delete d k = Some ((v, True), ?d')"
    by (simp add: Delete_def k d1(1) nd)
  have f1: "data d1 = data d" "len d1 = len d" "nextfree d1 = nextfree d"
    by (subst d1(5), simp)+
  have dist: "distinct as" using w by (rule wf_distinct)
  have idx: "\<forall>k' b. (((data d)(k := None)) k' = Some b)
     = (b \<in> set (remove1 a as) \<and> (\<exists>v'. kv (heap d) b = Some (k', v')))"
  proof (intro allI)
    fix k' b
    show "(((data d)(k := None)) k' = Some b)
       = (b \<in> set (remove1 a as) \<and> (\<exists>v'. kv (heap d) b = Some (k', v')))"
      using wf_index_iff[OF w, of k' b] wf_index_iff[OF w, of k b] k v dist
      by (cases "k' = k") auto
  qed
  have "len d = int (length as)" using w by (simp add: well_formed_def)
  then have ln: "len d - 1 = int (length (remove1 a as))"
    using a by (simp add: length_remove1_int)
  have bound: "\<forall>b. heap d1 b \<noteq> None \<longrightarrow> b < nextfree d"
    using w d1(4) by (metis domIff well_formed_def)
  have "well_formed ?d' (remove1 a as)"
    using d1(2) idx ln bound by (simp add: well_formed_def dll_def f1 d1(3))
  then show ?thesis using run v d1(3) f1 by auto
qed

lemma wf_MoveToEnd:
  assumes w: "well_formed d as" and k: "data d k = Some a"
  shows "\<exists>d'. MoveToEnd d k = Some (True, d') \<and> well_formed d' (remove1 a as @ [a])
           \<and> kv (heap d') = kv (heap d) \<and> data d' = data d"
proof -
  have a: "a \<in> set as" using wf_index_in[OF w k] .
  have dl: "dll d as" using w by (rule wf_dll)
  from unlinkNode_dll[OF dl a] obtain d1 where
    d1: "unlinkNode d a = Some d1" "dll d1 (remove1 a as)" "kv (heap d1) = kv (heap d)"
        "dom (heap d1) = dom (heap d)" "d1 = d\<lparr>heap := heap d1\<rparr>" by blast
  have ht: "head d1 = head d" "tail d1 = tail d" by (subst d1(5), simp)+
  have "a \<notin> set (head d # remove1 a as @ [tail d])"
    using dl a by (auto simp: dll_def)
  then have n1: "a \<notin> set (head d1 # remove1 a as @ [tail d1])" by (simp add: ht)
  have "heap d a \<noteq> None" using dll_alloc[OF dl, of a] a by simp
  then have a1: "heap d1 a \<noteq> None" using d1(4) by (metis domIff)
  from linkToEnd_dll[OF d1(2) n1 a1] obtain d2 where
    d2: "linkToEnd d1 a = Some d2" "dll d2 (remove1 a as @ [a])" "kv (heap d2) = kv (heap d1)"
        "dom (heap d2) = dom (heap d1)" "d2 = d1\<lparr>heap := heap d2\<rparr>" by blast
  have run: "MoveToEnd d k = Some (True, d2)" by (simp add: MoveToEnd_def k d1(1) d2(1))
  have eq: "d2 = d\<lparr>heap := heap d2\<rparr>" by (subst d2(5), subst d1(5), simp)
  have "well_formed d2 (remove1 a as @ [a])"
  proof (rule wf_relink[OF w d2(2)])
    show "set (remove1 a as @ [a]) = set as" using a wf_distinct[OF w] by auto
    show "length (remove1 a as @ [a]) = length as" using a by (simp add: length_remove1_Suc)
    show "kv (heap d2) = kv (heap d)" by (simp add: d2(3) d1(3))
    show "dom (heap d2) = dom (heap d)" by (simp add: d2(4) d1(4))
    show "d2 = d\<lparr>heap := heap d2\<rparr>" by (rule eq)
  qed
  moreover have "data d2 = data d" by (subst eq, simp)
  ultimately show ?thesis using run d2(3) d1(3) by auto
qed

lemma wf_MoveToStart:
  assumes w: "well_formed d as" and k: "data d k = Some a"
  shows "\<exists>d'. MoveToStart d k = Some (True, d') \<and> well_formed d' (a # remove1 a as)
           \<and> kv (heap d') = kv (heap d) \<and> data d' = data d"
proof -
  have a: "a \<in> set as" using wf_index_in[OF w k] .
  have dl: "dll d as" using w by (rule wf_dll)
  from unlinkNode_dll[OF dl a] obtain d1 where
    d1: "unlinkNode d a = Some d1" "dll d1 (remove1 a as)" "kv (heap d1) = kv (heap d)"
        "dom (heap d1) = dom (heap d)" "d1 = d\<lparr>heap := heap d1\<rparr>" by blast
  have ht: "head d1 = head d" "tail d1 = tail d" by (subst d1(5), simp)+
  have "a \<notin> set (head d # remove1 a as @ [tail d])"
    using dl a by (auto simp: dll_def)
  then have n1: "a \<notin> set (head d1 # remove1 a as @ [tail d1])" by (simp add: ht)
  have "heap d a \<noteq> None" using dll_alloc[OF dl, of a] a by simp
  then have a1: "heap d1 a \<noteq> None" using d1(4) by (metis domIff)
  from linkToStart_dll[OF d1(2) n1 a1] obtain d2 where
    d2: "linkToStart d1 a = Some d2" "dll d2 (a # remove1 a as)" "kv (heap d2) = kv (heap d1)"
        "dom (heap d2) = dom (heap d1)" "d2 = d1\<lparr>heap := heap d2\<rparr>" by blast
  have run: "MoveToStart d k = Some (True, d2)" by (simp add: MoveToStart_def k d1(1) d2(1))
  have eq: "d2 = d\<lparr>heap := heap d2\<rparr>" by (subst d2(5), subst d1(5), simp)
  have "well_formed d2 (a # remove1 a as)"
  proof (rule wf_relink[OF w d2(2)])
    show "set (a # remove1 a as) = set as" using a wf_distinct[OF w] by auto
    show "length (a # remove1 a as) = length as" using a by (simp add: length_remove1_Suc)
    show "kv (heap d2) = kv (heap d)" by (simp add: d2(3) d1(3))
    show "dom (heap d2) = dom (heap d)" by (simp add: d2(4) d1(4))
    show "d2 = d\<lparr>heap := heap d2\<rparr>" by (rule eq)
  qed
  moreover have "data d2 = data d" by (subst eq, simp)
  ultimately show ?thesis using run d2(3) d1(3) by auto
qed

lemma wf_MoveAfter:
  assumes w: "well_formed d as" and k: "data d k = Some n" and b: "data d after = Some b"
    and neq: "k \<noteq> after"
  shows "\<exists>d' ys zs. MoveAfter d k after = Some (True, d') \<and> remove1 n as = ys @ b # zs
           \<and> well_formed d' (ys @ b # n # zs)
           \<and> kv (heap d') = kv (heap d) \<and> data d' = data d"
proof -
  have n: "n \<in> set as" using wf_index_in[OF w k] .
  have b_in: "b \<in> set as" using wf_index_in[OF w b] .
  have nb: "n \<noteq> b" using wf_index_kv[OF w k] wf_index_kv[OF w b] neq by auto
  have dl: "dll d as" using w by (rule wf_dll)
  from unlinkNode_dll[OF dl n] obtain d1 where
    d1: "unlinkNode d n = Some d1" "dll d1 (remove1 n as)" "kv (heap d1) = kv (heap d)"
        "dom (heap d1) = dom (heap d)" "d1 = d\<lparr>heap := heap d1\<rparr>" by blast
  have "b \<in> set (remove1 n as)" using b_in nb by simp
  then obtain ys zs where split: "remove1 n as = ys @ b # zs" by (auto dest: split_list)
  have ht: "head d1 = head d" "tail d1 = tail d" by (subst d1(5), simp)+
  have "n \<notin> set (head d # remove1 n as @ [tail d])"
    using dl n by (auto simp: dll_def)
  then have n1: "n \<notin> set (head d1 # ys @ b # zs @ [tail d1])" by (simp add: ht split)
  have "heap d n \<noteq> None" using dll_alloc[OF dl, of n] n by simp
  then have a1: "heap d1 n \<noteq> None" using d1(4) by (metis domIff)
  have dl1: "dll d1 (ys @ b # zs)" using d1(2) by (simp add: split)
  from linkAfter_dll[OF dl1 n1 a1] obtain d2 where
    d2: "linkAfter d1 n b = Some d2" "dll d2 (ys @ b # n # zs)" "kv (heap d2) = kv (heap d1)"
        "dom (heap d2) = dom (heap d1)" "d2 = d1\<lparr>heap := heap d2\<rparr>" by blast
  have run: "MoveAfter d k after = Some (True, d2)"
    by (simp add: MoveAfter_def k b d1(1) d2(1))
  have eq: "d2 = d\<lparr>heap := heap d2\<rparr>" by (subst d2(5), subst d1(5), simp)
  have s1: "set (remove1 n as) = set as - {n}" using wf_distinct[OF w] by simp
  have l1: "Suc (length (remove1 n as)) = length as" using n
    by (rule length_remove1_Suc)
  have "well_formed d2 (ys @ b # n # zs)"
  proof (rule wf_relink[OF w d2(2)])
    show "set (ys @ b # n # zs) = set as" using s1 n by (auto simp: split)
    show "length (ys @ b # n # zs) = length as" using l1 by (simp add: split)
    show "kv (heap d2) = kv (heap d)" by (simp add: d2(3) d1(3))
    show "dom (heap d2) = dom (heap d)" by (simp add: d2(4) d1(4))
    show "d2 = d\<lparr>heap := heap d2\<rparr>" by (rule eq)
  qed
  moreover have "data d2 = data d" by (subst eq, simp)
  ultimately show ?thesis using run d2(3) d1(3) split by auto
qed

subsection \<open>What a well-formed container shows\<close>

lemma wf_entry: "well_formed d as \<Longrightarrow> a \<in> set as \<Longrightarrow> kv (heap d) a = Some (entry (heap d) a)"
  using dll_alloc[OF wf_dll, of d as a] by (auto simp: entry_def kv_def)

lemma wf_key_iff:
  assumes "well_formed d as" and "a \<in> set as"
  shows "(fst (entry (heap d) a) = k) = (data d k = Some a)"
  using wf_index_iff[OF assms(1), of k a] wf_entry[OF assms] assms(2)
  by (cases "entry (heap d) a") auto

lemma wf_keys_inj: "well_formed d as \<Longrightarrow> inj_on (\<lambda>a. fst (entry (heap d) a)) (set as)"
  by (rule inj_onI) (metis wf_key_iff option.inject)

lemma wf_distinct_keys: "well_formed d as \<Longrightarrow> distinct (map fst (entries d as))"
  using wf_keys_inj[of d as] wf_distinct[of d as]
  by (simp add: entries_def distinct_map comp_def)

lemma wf_Has: "well_formed d as \<Longrightarrow> Has d k = (k \<in> fst ` set (entries d as))"
proof -
  assume w: "well_formed d as"
  show ?thesis
  proof (cases "data d k")
    case None
    have "k \<notin> fst ` set (entries d as)"
    proof
      assume "k \<in> fst ` set (entries d as)"
      then obtain a where a: "a \<in> set as" "fst (entry (heap d) a) = k"
        by (auto simp: entries_def)
      then have "data d k = Some a" using wf_key_iff[OF w a(1), of k] by simp
      then show False using None by simp
    qed
    then show ?thesis using None by (simp add: Has_def)
  next
    case (Some a)
    then have "a \<in> set as" "fst (entry (heap d) a) = k"
      using wf_index_in[OF w Some] wf_key_iff[OF w, of a k] by auto
    then show ?thesis using Some by (force simp: Has_def entries_def)
  qed
qed

lemma wf_Get:
  assumes w: "well_formed d as"
  shows "Get d k = (case map_of (entries d as) k of None \<Rightarrow> Some (default, False)
                    | Some v \<Rightarrow> Some (v, True))"
proof (cases "data d k")
  case None
  then have "k \<notin> fst ` set (entries d as)" using wf_Has[OF w, of k] by (simp add: Has_def)
  then have "map_of (entries d as) k = None" by (simp add: map_of_eq_None_iff)
  then show ?thesis using None by (simp add: Get_def)
next
  case (Some a)
  have a: "a \<in> set as" using wf_index_in[OF w Some] .
  from wf_index_kv[OF w Some] obtain v where v: "kv (heap d) a = Some (k, v)" by blast
  then obtain nd where nd: "heap d a = Some nd" "val nd = v"
    by (auto simp: kv_def split: option.splits)
  have "(k, v) \<in> set (entries d as)" using a v by (force simp: entries_def entry_def)
  then have "map_of (entries d as) k = Some v"
    using wf_distinct_keys[OF w] by simp
  then show ?thesis using Some nd by (simp add: Get_def)
qed

lemma wf_observe:
  assumes w: "well_formed d as"
  shows "observe d = obs_of (entries d as)"
proof -
  note dl = wf_dll[OF w]
  have L: "Len d = int (length (entries d as))" using w by (simp add: Len_def well_formed_def entries_def)
  have H: "Has d = (\<lambda>k. k \<in> fst ` set (entries d as))" by (rule ext) (rule wf_Has[OF w])
  have G: "Get d = (\<lambda>k. case map_of (entries d as) k of None \<Rightarrow> Some (default, False)
                    | Some v \<Rightarrow> Some (v, True))" by (rule ext) (rule wf_Get[OF w])
  have A: "All d = (\<lambda>yield. Some (Some (upto_stop yield (entries d as))))"
    by (rule ext) (rule dll_All[OF dl])
  show ?thesis
    unfolding observe_def obs_of_def dll_Keys[OF dl] dll_Values[OF dl] L H G A by (rule refl)
qed

lemma entries_remove1:
  assumes w: "well_formed d as" and k: "data d k = Some a"
  shows "entries d (remove1 a as) = filter (\<lambda>p. fst p \<noteq> k) (entries d as)"
proof -
  have "filter (\<lambda>p. fst p \<noteq> k) (entries d as)
      = map (entry (heap d)) (filter (\<lambda>b. fst (entry (heap d) b) \<noteq> k) as)"
    by (simp add: entries_def filter_map comp_def)
  also have "filter (\<lambda>b. fst (entry (heap d) b) \<noteq> k) as = filter (\<lambda>b. b \<noteq> a) as"
    using wf_key_iff[OF w] k by (intro filter_cong) auto
  also have "\<dots> = remove1 a as"
    using wf_distinct[OF w] by (simp add: distinct_remove1_removeAll removeAll_filter_not_eq) metis
  finally show ?thesis by (simp add: entries_def)
qed

lemma Has_iff: "Has d k = (data d k \<noteq> None)"
  by (simp add: Has_def split: option.splits)

lemma wf_link_last:
  assumes "well_formed d (as @ [n])"
  shows "\<exists>nd t. heap d n = Some nd \<and> next nd = Some (tail d)
           \<and> heap d (tail d) = Some t \<and> prev t = Some n"
proof -
  have l: "links (nx (heap d)) (pv (heap d)) (head d) (as @ [n] @ [tail d])"
    using assms by (simp add: well_formed_def dll_def)
  then have "nx (heap d) n = Some (tail d)" "pv (heap d) (tail d) = Some n"
    by (simp_all add: links_append)
  then show ?thesis by (auto simp: nx_def pv_def split: option.splits)
qed

subsection \<open>Evaluation\<close>

lemmas run_defs = Set_def New_def alloc_def linkToEnd_def linkToStart_def linkAfter_def
  unlinkNode_def set_prev_def set_next_def set_val_def load_def Let_def
  Keys_def Values_def All_def keys_loop.simps values_loop.simps all_loop.simps
  Get_def Has_def Len_def Delete_def Remove_def MoveAfter_def MoveToEnd_def MoveToStart_def
  Clear_def default_int_def default_list_def

lemma invariant_New: "invariant New"
  using wf_New by (auto simp: invariant_def)

lemma invariant_Set:
  assumes "invariant d"
  shows "\<exists>d'. Set d k v = Some d' \<and> invariant d'"
proof -
  from assms obtain as where w: "well_formed d as" by (auto simp: invariant_def)
  show ?thesis
  proof (cases "data d k")
    case None
    from wf_Set_new[OF w None, of v] show ?thesis by (auto simp: invariant_def)
  next
    case (Some a)
    from wf_Set_existing[OF w Some, of v] show ?thesis unfolding invariant_def by blast
  qed
qed

lemma invariant_abc: "invariant abc"
proof -
  from invariant_Set[OF invariant_New, of "''a''" 1] obtain d1 :: "(string, int) OrderedDict"
    where d1: "Set New ''a'' 1 = Some d1" "invariant d1" by blast
  from invariant_Set[OF d1(2), of "''b''" 2] obtain d2
    where d2: "Set d1 ''b'' 2 = Some d2" "invariant d2" by blast
  from invariant_Set[OF d2(2), of "''c''" 3] obtain d3
    where d3: "Set d2 ''c'' 3 = Some d3" "invariant d3" by blast
  show ?thesis by (simp add: abc_def d1 d2 d3)
qed

lemma abc_obs:
  "Keys abc = Some (Some [''a'', ''b'', ''c''])" "Values abc = Some (Some [1, 2, 3])" "Len abc = 3"
  "\<not> Has abc ''d''" "Has abc ''b''"
  by (simp_all add: abc_def run_defs)

subsection \<open>Lists of entries\<close>

lemma entries_update:
  assumes w: "well_formed d as" and k: "data d k = Some a"
    and kv': "kv (heap d') = (kv (heap d))(a \<mapsto> (k, v))"
  shows "entries d' as = map (\<lambda>(k', v'). if k' = k then (k', v) else (k', v')) (entries d as)"
proof -
  have "\<And>b. b \<in> set as \<Longrightarrow>
      entry (heap d') b = (\<lambda>(k', v'). if k' = k then (k', v) else (k', v')) (entry (heap d) b)"
  proof -
    fix b assume b: "b \<in> set as"
    show "entry (heap d') b = (\<lambda>(k', v'). if k' = k then (k', v) else (k', v')) (entry (heap d) b)"
    proof (cases "b = a")
      case True
      have "fst (entry (heap d) a) = k" using wf_key_iff[OF w, of a k] b k True by simp
      then show ?thesis using True by (cases "entry (heap d) a") (simp add: entry_def kv')
    next
      case False
      then have "fst (entry (heap d) b) \<noteq> k" using wf_key_iff[OF w b, of k] k by simp
      then show ?thesis using False by (cases "entry (heap d) b") (simp add: entry_def kv')
    qed
  qed
  then show ?thesis by (simp add: entries_def)
qed

lemma map_of_set_value:
  "map_of (map (\<lambda>(k', v'). if k' = k then (k', v) else (k', v')) ps) k'
     = (if k' = k then map_option (\<lambda>_. v) (map_of ps k') else map_of ps k')"
  by (induction ps) auto

lemma map_fst_set_value:
  "map fst (map (\<lambda>(k', v'). if k' = k then (k', v) else (k', v')) ps) = map fst ps"
  by (induction ps) auto

lemma wf_Keys: "well_formed d as \<Longrightarrow> Keys d = Some (Some (map fst (entries d as)))"
  by (rule dll_Keys[OF wf_dll])

lemma wf_Values: "well_formed d as \<Longrightarrow> Values d = Some (Some (map snd (entries d as)))"
  by (rule dll_Values[OF wf_dll])

lemma wf_Len: "well_formed d as \<Longrightarrow> Len d = int (length as)"
  by (simp add: well_formed_def Len_def)

lemma map_of_filter_other:
  "k' \<noteq> k \<Longrightarrow> map_of (filter (\<lambda>p. fst p \<noteq> k) ps) k' = map_of ps k'"
  by (induction ps) auto

lemma entries_kv: "kv (heap d') = kv (heap d) \<Longrightarrow> entries d' xs = entries d xs"
  by (simp add: entries_def entry_def)

lemma Get_cong:
  assumes "data d' = data d" and "kv (heap d') = kv (heap d)"
  shows "Get d' k = Get d k"
proof (cases "data d k")
  case None
  then show ?thesis by (simp add: Get_def assms(1))
next
  case (Some a)
  have "kv (heap d') a = kv (heap d) a" by (simp add: assms(2))
  then show ?thesis
    by (auto simp: Get_def assms(1) Some kv_def split: option.splits)
qed

lemma Has_cong: "data d' = data d \<Longrightarrow> Has d' k = Has d k"
  by (simp add: Has_def)

lemma Delete_absent: "\<not> Has d k \<Longrightarrow> Delete d k = Some ((default, False), d)"
  by (simp add: Has_iff Delete_def)

lemma Remove_absent: "\<not> Has d k \<Longrightarrow> Remove d k = Some (False, d)"
  by (simp add: Remove_def Delete_absent)

lemma MoveAfter_absent:
  "\<not> Has d k \<or> \<not> Has d after \<Longrightarrow> MoveAfter d k after = Some (False, d)"
  by (auto simp: Has_iff MoveAfter_def split: option.splits)

lemma MoveToEnd_absent: "\<not> Has d k \<Longrightarrow> MoveToEnd d k = Some (False, d)"
  by (simp add: Has_iff MoveToEnd_def)

lemma MoveToStart_absent: "\<not> Has d k \<Longrightarrow> MoveToStart d k = Some (False, d)"
  by (simp add: Has_iff MoveToStart_def)

lemma wf_key_at: "well_formed d as \<Longrightarrow> data d k = Some a \<Longrightarrow> fst (entry (heap d) a) = k"
  using wf_key_iff[of d as a k] wf_index_in[of d as k a] by simp

lemma observe_eq:
  assumes "well_formed d as" and "well_formed d' as" and "kv (heap d') = kv (heap d)"
  shows "observe d' = observe d"
  using wf_observe[OF assms(1)] wf_observe[OF assms(2)] entries_kv[OF assms(3), of as] by simp

lemma remove1_last: "distinct as \<Longrightarrow> as \<noteq> [] \<Longrightarrow> remove1 (last as) as @ [last as] = as"
  by (induction as) (auto split: if_splits)

lemma remove1_hd: "as \<noteq> [] \<Longrightarrow> hd as # remove1 (hd as) as = as"
  by (cases as) auto

subsection \<open>Simulation under a shift of addresses\<close>

lemma shift_simps [simp]:
  "shift n None = None" "shift n (Some a) = Some (a + n)"
  "(shift n p = None) = (p = None)"
  "(shift n p = Some (t + n)) = (p = Some t)"
  by (auto simp: shift_def)

lemma shift_node_simps [simp]:
  "prev (shift_node n nd) = shift n (prev nd)" "next (shift_node n nd) = shift n (next nd)"
  "key (shift_node n nd) = key nd" "val (shift_node n nd) = val nd"
  by (simp_all add: shift_node_def)

lemma hsim_load: "hsim n h1 h2 \<Longrightarrow> load h2 (shift n p) = map_option (shift_node n) (load h1 p)"
  by (cases p) (simp_all add: load_def hsim_def)

lemma keys_loop_sim1:
  assumes "keys_loop h1 cur t k = Some y"
  shows "\<forall>h2. hsim n h1 h2 \<longrightarrow> keys_loop h2 (shift n cur) (t + n) k = Some y"
proof (rule keys_loop.raw_induct[where P = "\<lambda>h1 cur t k y.
         \<forall>h2. hsim n h1 h2 \<longrightarrow> keys_loop h2 (shift n cur) (t + n) k = Some y", OF _ assms],
       goal_cases)
  case (1 f h cur t k y)
  show ?case
  proof (intro allI impI)
    fix h2 assume hs: "hsim n h h2"
    note ld = hsim_load[OF hs, of cur]
    show "keys_loop h2 (shift n cur) (t + n) k = Some y"
    proof (cases "cur = Some t")
      case True
      then show ?thesis using 1(2) by (subst keys_loop.simps) simp
    next
      case False
      show ?thesis
      proof (cases "load h cur")
        case None
        then show ?thesis using 1(2) False ld by (subst keys_loop.simps) simp
      next
        case (Some nd)
        then have "f h (next nd) t (k @ [key nd]) = Some y" using 1(2) False by simp
        from 1(1)[OF this] hs show ?thesis using False Some ld
          by (subst keys_loop.simps) simp
      qed
    qed
  qed
qed

lemma keys_loop_sim2:
  assumes "keys_loop h2 c2 t2 k = Some y"
  shows "\<forall>h1 cur t. hsim n h1 h2 \<and> c2 = shift n cur \<and> t2 = t + n
           \<longrightarrow> keys_loop h1 cur t k = Some y"
proof (rule keys_loop.raw_induct[where P = "\<lambda>h2 c2 t2 k y.
         \<forall>h1 cur t. hsim n h1 h2 \<and> c2 = shift n cur \<and> t2 = t + n
           \<longrightarrow> keys_loop h1 cur t k = Some y", OF _ assms],
       goal_cases)
  case (1 f h2 c2 t2 k y)
  show ?case
  proof (intro allI impI, elim conjE)
    fix h1 cur t assume hs: "hsim n h1 h2" and c: "c2 = shift n cur" and t: "t2 = t + n"
    note ld = hsim_load[OF hs, of cur]
    show "keys_loop h1 cur t k = Some y"
    proof (cases "cur = Some t")
      case True
      then show ?thesis using 1(2) c t by (subst keys_loop.simps) simp
    next
      case False
      show ?thesis
      proof (cases "load h1 cur")
        case None
        then show ?thesis using 1(2) c t False ld by (subst keys_loop.simps) simp
      next
        case (Some nd)
        then have "f h2 (shift n (next nd)) (t + n) (k @ [key nd]) = Some y"
          using 1(2) c t False ld by simp
        from 1(1)[OF this] hs show ?thesis using False Some
          by (subst keys_loop.simps) simp
      qed
    qed
  qed
qed

lemma keys_loop_sim:
  assumes "hsim n h1 h2"
  shows "keys_loop h2 (shift n cur) (t + n) k = keys_loop h1 cur t k"
proof (cases "keys_loop h1 cur t k")
  case None
  show ?thesis
  proof (cases "keys_loop h2 (shift n cur) (t + n) k")
    case None
    then show ?thesis using \<open>keys_loop h1 cur t k = None\<close> by simp
  next
    case (Some y)
    from keys_loop_sim2[OF this] assms show ?thesis using Some by simp
  qed
next
  case (Some y)
  from keys_loop_sim1[OF this] assms show ?thesis using Some by simp
qed

lemma values_loop_sim1:
  assumes "values_loop h1 cur t k = Some y"
  shows "\<forall>h2. hsim n h1 h2 \<longrightarrow> values_loop h2 (shift n cur) (t + n) k = Some y"
proof (rule values_loop.raw_induct[where P = "\<lambda>h1 cur t k y.
         \<forall>h2. hsim n h1 h2 \<longrightarrow> values_loop h2 (shift n cur) (t + n) k = Some y", OF _ assms],
       goal_cases)
  case (1 f h cur t k y)
  show ?case
  proof (intro allI impI)
    fix h2 assume hs: "hsim n h h2"
    note ld = hsim_load[OF hs, of cur]
    show "values_loop h2 (shift n cur) (t + n) k = Some y"
    proof (cases "cur = Some t")
      case True
      then show ?thesis using 1(2) by (subst values_loop.simps) simp
    next
      case False
      show ?thesis
      proof (cases "load h cur")
        case None
        then show ?thesis using 1(2) False ld by (subst values_loop.simps) simp
      next
        case (Some nd)
        then have "f h (next nd) t (k @ [val nd]) = Some y" using 1(2) False by simp
        from 1(1)[OF this] hs show ?thesis using False Some ld
          by (subst values_loop.simps) simp
      qed
    qed
  qed
qed

lemma values_loop_sim2:
  assumes "values_loop h2 c2 t2 k = Some y"
  shows "\<forall>h1 cur t. hsim n h1 h2 \<and> c2 = shift n cur \<and> t2 = t + n
           \<longrightarrow> values_loop h1 cur t k = Some y"
proof (rule values_loop.raw_induct[where P = "\<lambda>h2 c2 t2 k y.
         \<forall>h1 cur t. hsim n h1 h2 \<and> c2 = shift n cur \<and> t2 = t + n
           \<longrightarrow> values_loop h1 cur t k = Some y", OF _ assms],
       goal_cases)
  case (1 f h2 c2 t2 k y)
  show ?case
  proof (intro allI impI, elim conjE)
    fix h1 cur t assume hs: "hsim n h1 h2" and c: "c2 = shift n cur" and t: "t2 = t + n"
    note ld = hsim_load[OF hs, of cur]
    show "values_loop h1 cur t k = Some y"
    proof (cases "cur = Some t")
      case True
      then show ?thesis using 1(2) c t by (subst values_loop.simps) simp
    next
      case False
      show ?thesis
      proof (cases "load h1 cur")
        case None
        then show ?thesis using 1(2) c t False ld by (subst values_loop.simps) simp
      next
        case (Some nd)
        then have "f h2 (shift n (next nd)) (t + n) (k @ [val nd]) = Some y"
          using 1(2) c t False ld by simp
        from 1(1)[OF this] hs show ?thesis using False Some
          by (subst values_loop.simps) simp
      qed
    qed
  qed
qed

lemma values_loop_sim:
  assumes "hsim n h1 h2"
  shows "values_loop h2 (shift n cur) (t + n) k = values_loop h1 cur t k"
proof (cases "values_loop h1 cur t k")
  case None
  show ?thesis
  proof (cases "values_loop h2 (shift n cur) (t + n) k")
    case None
    then show ?thesis using \<open>values_loop h1 cur t k = None\<close> by simp
  next
    case (Some y)
    from values_loop_sim2[OF this] assms show ?thesis using Some by simp
  qed
next
  case (Some y)
  from values_loop_sim1[OF this] assms show ?thesis using Some by simp
qed

lemma all_loop_sim1:
  assumes "all_loop h1 cur t yield k = Some y"
  shows "\<forall>h2. hsim n h1 h2 \<longrightarrow> all_loop h2 (shift n cur) (t + n) yield k = Some y"
proof (rule all_loop.raw_induct[where P = "\<lambda>h1 cur t yield k y.
         \<forall>h2. hsim n h1 h2 \<longrightarrow> all_loop h2 (shift n cur) (t + n) yield k = Some y", OF _ assms],
       goal_cases)
  case (1 f h cur t yield k y)
  show ?case
  proof (intro allI impI)
    fix h2 assume hs: "hsim n h h2"
    note ld = hsim_load[OF hs, of cur]
    show "all_loop h2 (shift n cur) (t + n) yield k = Some y"
    proof (cases "cur = Some t")
      case True
      then show ?thesis using 1(2) by (subst all_loop.simps) simp
    next
      case False
      show ?thesis
      proof (cases "load h cur")
        case None
        then show ?thesis using 1(2) False ld by (subst all_loop.simps) simp
      next
        case (Some nd)
        show ?thesis
        proof (cases "yield (key nd) (val nd)")
          case True
          then have "f h (next nd) t yield (k @ [(key nd, val nd)]) = Some y"
            using 1(2) False Some by simp
          from 1(1)[OF this] hs show ?thesis using False Some ld True
            by (subst all_loop.simps) simp
        next
          case no: False
          then show ?thesis using 1(2) False Some ld by (subst all_loop.simps) simp
        qed
      qed
    qed
  qed
qed

lemma all_loop_sim2:
  assumes "all_loop h2 c2 t2 yield k = Some y"
  shows "\<forall>h1 cur t. hsim n h1 h2 \<and> c2 = shift n cur \<and> t2 = t + n
           \<longrightarrow> all_loop h1 cur t yield k = Some y"
proof (rule all_loop.raw_induct[where P = "\<lambda>h2 c2 t2 yield k y.
         \<forall>h1 cur t. hsim n h1 h2 \<and> c2 = shift n cur \<and> t2 = t + n
           \<longrightarrow> all_loop h1 cur t yield k = Some y", OF _ assms],
       goal_cases)
  case (1 f h2 c2 t2 yield k y)
  show ?case
  proof (intro allI impI, elim conjE)
    fix h1 cur t assume hs: "hsim n h1 h2" and c: "c2 = shift n cur" and t: "t2 = t + n"
    note ld = hsim_load[OF hs, of cur]
    show "all_loop h1 cur t yield k = Some y"
    proof (cases "cur = Some t")
      case True
      then show ?thesis using 1(2) c t by (subst all_loop.simps) simp
    next
      case False
      show ?thesis
      proof (cases "load h1 cur")
        case None
        then show ?thesis using 1(2) c t False ld by (subst all_loop.simps) simp
      next
        case (Some nd)
        show ?thesis
        proof (cases "yield (key nd) (val nd)")
          case True
          then have "f h2 (shift n (next nd)) (t + n) yield (k @ [(key nd, val nd)]) = Some y"
            using 1(2) c t False Some ld by simp
          from 1(1)[OF this] hs show ?thesis using False Some True
            by (subst all_loop.simps) simp
        next
          case no: False
          then show ?thesis using 1(2) c t False Some ld by (subst all_loop.simps) simp
        qed
      qed
    qed
  qed
qed

lemma all_loop_sim:
  assumes "hsim n h1 h2"
  shows "all_loop h2 (shift n cur) (t + n) yield k = all_loop h1 cur t yield k"
proof (cases "all_loop h1 cur t yield k")
  case None
  show ?thesis
  proof (cases "all_loop h2 (shift n cur) (t + n) yield k")
    case None
    then show ?thesis using \<open>all_loop h1 cur t yield k = None\<close> by simp
  next
    case (Some y)
    from all_loop_sim2[OF this] assms show ?thesis using Some by simp
  qed
next
  case (Some y)
  from all_loop_sim1[OF this] assms show ?thesis using Some by simp
qed

lemma rel_option_bind:
  "rel_option R x y \<Longrightarrow> (\<And>a b. R a b \<Longrightarrow> rel_option S (f a) (g b))
    \<Longrightarrow> rel_option S (x \<bind> f) (y \<bind> g)"
  by (cases x; cases y) simp_all

lemma hsim_lookup: "hsim n h1 h2 \<Longrightarrow> rel_option (\<lambda>x y. y = shift_node n x) (h1 a) (h2 (a + n))"
  by (cases "h1 a") (simp_all add: hsim_def)

lemma hsim_upd:
  "hsim n h1 h2 \<Longrightarrow> hsim n (h1(a \<mapsto> nd)) (h2(a + n \<mapsto> shift_node n nd))"
  by (simp add: hsim_def)

lemma set_next_sim:
  assumes "hsim n h1 h2"
  shows "rel_option (hsim n) (set_next h1 p q) (set_next h2 (shift n p) (shift n q))"
proof (cases p)
  case None
  then show ?thesis by (simp add: set_next_def)
next
  case (Some a)
  show ?thesis
  proof (cases "h1 a")
    case None
    then show ?thesis using assms Some by (simp add: set_next_def hsim_def)
  next
    case nd: (Some nd)
    have h2a: "h2 (a + n) = Some (shift_node n nd)" using assms nd by (simp add: hsim_def)
    have eq: "(shift_node n nd)\<lparr>next := shift n q\<rparr> = shift_node n (nd\<lparr>next := q\<rparr>)"
      by (simp add: shift_node_def)
    show ?thesis using hsim_upd[OF assms, of a "nd\<lparr>next := q\<rparr>"]
      by (simp add: set_next_def Some nd h2a eq)
  qed
qed

lemma set_prev_sim:
  assumes "hsim n h1 h2"
  shows "rel_option (hsim n) (set_prev h1 p q) (set_prev h2 (shift n p) (shift n q))"
proof (cases p)
  case None
  then show ?thesis by (simp add: set_prev_def)
next
  case (Some a)
  show ?thesis
  proof (cases "h1 a")
    case None
    then show ?thesis using assms Some by (simp add: set_prev_def hsim_def)
  next
    case nd: (Some nd)
    have h2a: "h2 (a + n) = Some (shift_node n nd)" using assms nd by (simp add: hsim_def)
    have eq: "(shift_node n nd)\<lparr>prev := shift n q\<rparr> = shift_node n (nd\<lparr>prev := q\<rparr>)"
      by (simp add: shift_node_def)
    show ?thesis using hsim_upd[OF assms, of a "nd\<lparr>prev := q\<rparr>"]
      by (simp add: set_prev_def Some nd h2a eq)
  qed
qed

lemma set_val_sim:
  assumes "hsim n h1 h2"
  shows "rel_option (hsim n) (set_val h1 p v) (set_val h2 (shift n p) v)"
proof (cases p)
  case None
  then show ?thesis by (simp add: set_val_def)
next
  case (Some a)
  show ?thesis
  proof (cases "h1 a")
    case None
    then show ?thesis using assms Some by (simp add: set_val_def hsim_def)
  next
    case nd: (Some nd)
    have h2a: "h2 (a + n) = Some (shift_node n nd)" using assms nd by (simp add: hsim_def)
    have eq: "(shift_node n nd)\<lparr>val := v\<rparr> = shift_node n (nd\<lparr>val := v\<rparr>)"
      by (simp add: shift_node_def)
    show ?thesis using hsim_upd[OF assms, of a "nd\<lparr>val := v\<rparr>"]
      by (simp add: set_val_def Some nd h2a eq)
  qed
qed

lemma sim_heap: "sim n d1 d2 \<Longrightarrow> hsim n (heap d1) (heap d2)"
  by (simp add: sim_def)

lemma sim_heap_upd: "sim n d1 d2 \<Longrightarrow> hsim n h1 h2 \<Longrightarrow> sim n (d1\<lparr>heap := h1\<rparr>) (d2\<lparr>heap := h2\<rparr>)"
  by (simp add: sim_def)

lemma sim_tail: "sim n d1 d2 \<Longrightarrow> tail d2 = tail d1 + n" by (simp add: sim_def)
lemma sim_head: "sim n d1 d2 \<Longrightarrow> head d2 = head d1 + n" by (simp add: sim_def)

lemma unlinkNode_sim:
  assumes s: "sim n d1 d2"
  shows "rel_option (sim n) (unlinkNode d1 a) (unlinkNode d2 (a + n))"
  unfolding unlinkNode_def
proof (rule rel_option_bind[OF hsim_lookup[OF sim_heap[OF s]]], goal_cases)
  case (1 nd nd')
  show ?case unfolding 1
  proof (simp, rule rel_option_bind[OF set_next_sim[OF sim_heap[OF s]]], goal_cases)
    case (1 h1 h2)
    show ?case
    proof (rule rel_option_bind[OF hsim_lookup[OF 1]], goal_cases)
      case (1 nd1 nd1')
      show ?case unfolding 1
      proof (simp, rule rel_option_bind[OF set_prev_sim[OF \<open>hsim n h1 h2\<close>]], goal_cases)
        case (1 h3 h4)
        then show ?case using sim_heap_upd[OF s] by simp
      qed
    qed
  qed
qed

lemma hsim_at: "hsim n h1 h2 \<Longrightarrow> h2 (a + n) = map_option (shift_node n) (h1 a)"
  by (simp add: hsim_def)

lemma shift_Some_eq: "Some (a + n) = shift n (Some a)" by simp

lemma linkToEnd_sim:
  assumes s: "sim n d1 d2"
  shows "rel_option (sim n) (linkToEnd d1 a) (linkToEnd d2 (a + n))"
  unfolding linkToEnd_def sim_tail[OF s]
proof (rule rel_option_bind[OF hsim_lookup[OF sim_heap[OF s]]], goal_cases)
  case (1 t t')
  show ?case unfolding 1 Let_def shift_node_simps shift_Some_eq
  proof (rule rel_option_bind[OF set_prev_sim[OF sim_heap[OF s]]], goal_cases)
    case (1 h1 h1')
    show ?case
    proof (rule rel_option_bind[OF set_next_sim[OF 1]], goal_cases)
      case (1 h2 h2')
      show ?case
      proof (rule rel_option_bind[OF set_next_sim[OF 1]], goal_cases)
        case (1 h3 h3')
        show ?case
        proof (rule rel_option_bind[OF set_prev_sim[OF 1]], goal_cases)
          case (1 h4 h4')
          then show ?case using sim_heap_upd[OF s] by simp
        qed
      qed
    qed
  qed
qed

lemma linkToStart_sim:
  assumes s: "sim n d1 d2"
  shows "rel_option (sim n) (linkToStart d1 a) (linkToStart d2 (a + n))"
  unfolding linkToStart_def sim_head[OF s]
proof (rule rel_option_bind[OF hsim_lookup[OF sim_heap[OF s]]], goal_cases)
  case (1 t t')
  show ?case unfolding 1 Let_def shift_node_simps shift_Some_eq
  proof (rule rel_option_bind[OF set_next_sim[OF sim_heap[OF s]]], goal_cases)
    case (1 h1 h1')
    show ?case
    proof (rule rel_option_bind[OF set_prev_sim[OF 1]], goal_cases)
      case (1 h2 h2')
      show ?case
      proof (rule rel_option_bind[OF set_prev_sim[OF 1]], goal_cases)
        case (1 h3 h3')
        show ?case
        proof (rule rel_option_bind[OF set_next_sim[OF 1]], goal_cases)
          case (1 h4 h4')
          then show ?case using sim_heap_upd[OF s] by simp
        qed
      qed
    qed
  qed
qed

lemma linkAfter_sim:
  assumes s: "sim n d1 d2"
  shows "rel_option (sim n) (linkAfter d1 a b) (linkAfter d2 (a + n) (b + n))"
  unfolding linkAfter_def
proof (rule rel_option_bind[OF hsim_lookup[OF sim_heap[OF s]]], goal_cases)
  case (1 t t')
  show ?case unfolding 1 Let_def shift_node_simps shift_Some_eq
  proof (rule rel_option_bind[OF set_next_sim[OF sim_heap[OF s]]], goal_cases)
    case (1 h1 h1')
    show ?case
    proof (rule rel_option_bind[OF set_prev_sim[OF 1]], goal_cases)
      case (1 h2 h2')
      show ?case
      proof (rule rel_option_bind[OF set_next_sim[OF 1]], goal_cases)
        case (1 h3 h3')
        show ?case
        proof (rule rel_option_bind[OF set_prev_sim[OF 1]], goal_cases)
          case (1 h4 h4')
          then show ?case using sim_heap_upd[OF s] by simp
        qed
      qed
    qed
  qed
qed

lemma sim_data: "sim n d1 d2 \<Longrightarrow> data d2 k = shift n (data d1 k)" by (simp add: sim_def)

lemma sim_alloc:
  assumes "sim n d1 d2"
  shows "fst (alloc d2 k v) = fst (alloc d1 k v) + n"
    and "sim n (snd (alloc d1 k v)) (snd (alloc d2 k v))"
  using assms hsim_upd[of n "heap d1" "heap d2" "nextfree d1" "\<lparr>prev = None, next = None, key = k, val = v\<rparr>"]
  by (simp_all add: alloc_def sim_def shift_node_def)

lemma Set_sim:
  assumes s: "sim n d1 d2"
  shows "rel_option (sim n) (Set d1 k v) (Set d2 k v)"
proof (cases "data d1 k")
  case None
  then have 2: "data d2 k = None" using sim_data[OF s, of k] by simp
  obtain a d1' where a1: "alloc d1 k v = (a, d1')" by (cases "alloc d1 k v")
  obtain a' d2' where a2: "alloc d2 k v = (a', d2')" by (cases "alloc d2 k v")
  have aa: "a' = a + n" and ss: "sim n d1' d2'" using sim_alloc[OF s, of k v] a1 a2 by simp_all
  show ?thesis unfolding Set_def None 2 a1 a2 aa
    apply (simp add: Let_def)
    apply (rule rel_option_bind[OF linkToEnd_sim[OF ss]])
    apply (simp add: sim_def)
    done
next
  case (Some a)
  then have 2: "data d2 k = Some (a + n)" using sim_data[OF s, of k] by simp
  show ?thesis unfolding Set_def Some 2 option.case
    apply (rule rel_option_bind[OF set_val_sim[OF sim_heap[OF s], of "Some a" v, simplified]])
    using sim_heap_upd[OF s] apply simp
    done
qed

lemma Get_sim:
  assumes s: "sim n d1 d2"
  shows "Get d2 k = Get d1 k"
proof (cases "data d1 k")
  case None
  then show ?thesis using sim_data[OF s, of k] by (simp add: Get_def)
next
  case (Some a)
  then have 2: "data d2 k = Some (a + n)" using sim_data[OF s, of k] by simp
  show ?thesis using hsim_at[OF sim_heap[OF s], of a]
    by (cases "heap d1 a") (simp_all add: Get_def Some 2)
qed

lemma Has_sim: "sim n d1 d2 \<Longrightarrow> Has d2 k = Has d1 k"
  using sim_data[of n d1 d2 k] by (cases "data d1 k") (simp_all add: Has_def)

lemma Len_sim: "sim n d1 d2 \<Longrightarrow> Len d2 = Len d1"
  by (simp add: Len_def sim_def)

lemma Delete_sim:
  assumes s: "sim n d1 d2"
  shows "rel_option (rsim n) (Delete d1 k) (Delete d2 k)"
proof (cases "data d1 k")
  case None
  then show ?thesis using sim_data[OF s, of k] s by (simp add: Delete_def rsim_def)
next
  case (Some a)
  then have 2: "data d2 k = Some (a + n)" using sim_data[OF s, of k] by simp
  show ?thesis unfolding Delete_def Some 2
    apply simp
    apply (rule rel_option_bind[OF unlinkNode_sim[OF s]])
    subgoal for x y
      apply (rule rel_option_bind[OF hsim_lookup[OF sim_heap]])
       apply assumption
      apply (simp add: rsim_def sim_def)
      done
    done
qed

lemma Remove_sim:
  assumes s: "sim n d1 d2"
  shows "rel_option (rsim n) (Remove d1 k) (Remove d2 k)"
  unfolding Remove_def
  apply (rule rel_option_bind[OF Delete_sim[OF s]])
  apply (auto simp: rsim_def)
  done

lemma MoveToEnd_sim:
  assumes s: "sim n d1 d2"
  shows "rel_option (rsim n) (MoveToEnd d1 k) (MoveToEnd d2 k)"
proof (cases "data d1 k")
  case None
  then show ?thesis using sim_data[OF s, of k] s by (simp add: MoveToEnd_def rsim_def)
next
  case (Some a)
  then have 2: "data d2 k = Some (a + n)" using sim_data[OF s, of k] by simp
  show ?thesis unfolding MoveToEnd_def Some 2
    apply simp
    apply (rule rel_option_bind[OF unlinkNode_sim[OF s]])
    apply (rule rel_option_bind[OF linkToEnd_sim])
     apply assumption
    apply (simp add: rsim_def)
    done
qed

lemma MoveToStart_sim:
  assumes s: "sim n d1 d2"
  shows "rel_option (rsim n) (MoveToStart d1 k) (MoveToStart d2 k)"
proof (cases "data d1 k")
  case None
  then show ?thesis using sim_data[OF s, of k] s by (simp add: MoveToStart_def rsim_def)
next
  case (Some a)
  then have 2: "data d2 k = Some (a + n)" using sim_data[OF s, of k] by simp
  show ?thesis unfolding MoveToStart_def Some 2
    apply simp
    apply (rule rel_option_bind[OF unlinkNode_sim[OF s]])
    apply (rule rel_option_bind[OF linkToStart_sim])
     apply assumption
    apply (simp add: rsim_def)
    done
qed

lemma MoveAfter_sim:
  assumes s: "sim n d1 d2"
  shows "rel_option (rsim n) (MoveAfter d1 k after) (MoveAfter d2 k after)"
proof (cases "data d1 after")
  case None
  then show ?thesis using sim_data[OF s, of after] s by (simp add: MoveAfter_def rsim_def)
next
  case b: (Some b)
  then have b2: "data d2 after = Some (b + n)" using sim_data[OF s, of after] by simp
  show ?thesis
  proof (cases "data d1 k")
    case None
    then show ?thesis using sim_data[OF s, of k] s b b2 by (simp add: MoveAfter_def rsim_def)
  next
    case (Some a)
    then have 2: "data d2 k = Some (a + n)" using sim_data[OF s, of k] by simp
    show ?thesis unfolding MoveAfter_def Some 2 b b2
      apply simp
      apply (rule rel_option_bind[OF unlinkNode_sim[OF s]])
      apply (rule rel_option_bind[OF linkAfter_sim])
       apply assumption
      apply (simp add: rsim_def)
      done
  qed
qed

lemma Keys_sim:
  assumes s: "sim n d1 d2"
  shows "Keys d2 = Keys d1"
  using hsim_at[OF sim_heap[OF s], of "head d1"]
    keys_loop_sim[OF sim_heap[OF s], of _ "tail d1"]
  by (cases "heap d1 (head d1)") (simp_all add: Keys_def sim_head[OF s] sim_tail[OF s])

lemma Values_sim:
  assumes s: "sim n d1 d2"
  shows "Values d2 = Values d1"
  using hsim_at[OF sim_heap[OF s], of "head d1"]
    values_loop_sim[OF sim_heap[OF s], of _ "tail d1"]
  by (cases "heap d1 (head d1)") (simp_all add: Values_def sim_head[OF s] sim_tail[OF s])

lemma All_sim:
  assumes s: "sim n d1 d2"
  shows "All d2 yield = All d1 yield"
  using hsim_at[OF sim_heap[OF s], of "head d1"]
    all_loop_sim[OF sim_heap[OF s], of _ "tail d1"]
  by (cases "heap d1 (head d1)") (simp_all add: All_def sim_head[OF s] sim_tail[OF s])

lemma Clear_sim: "sim n d1 d2 \<Longrightarrow> sim n (Clear d1) (Clear d2)"
  by (simp add: Clear_def Let_def sim_def hsim_def shift_node_def)

lemma rel_option_map_left:
  "rel_option R x y \<Longrightarrow> (\<And>a b. R a b \<Longrightarrow> S (f a) (g b))
     \<Longrightarrow> rel_option S (map_option f x) (map_option g y)"
  by (cases x; cases y) simp_all

lemma exec_sim:
  assumes s: "sim n d1 d2"
  shows "rel_option (rel_option (rsim n)) (exec c d1) (exec c d2)"
proof (cases c)
  case (CallSet k v)
  show ?thesis unfolding CallSet exec.simps
    by (simp, rule rel_option_map_left[OF Set_sim[OF s]]) (simp add: rsim_def)
next
  case (CallGet k)
  show ?thesis unfolding CallGet exec.simps Get_sim[OF s]
    by (cases "Get d1 k") (auto simp: rsim_def s)
next
  case (CallHas k)
  show ?thesis unfolding CallHas exec.simps Has_sim[OF s] by (simp add: rsim_def s)
next
  case (CallDelete k)
  show ?thesis unfolding CallDelete exec.simps
    by (simp, rule rel_option_map_left[OF Delete_sim[OF s]]) (auto simp: rsim_def)
next
  case (CallRemove k)
  show ?thesis unfolding CallRemove exec.simps
    by (simp, rule rel_option_map_left[OF Remove_sim[OF s]]) (auto simp: rsim_def)
next
  case CallLen
  show ?thesis unfolding CallLen exec.simps Len_sim[OF s] by (simp add: rsim_def s)
next
  case CallKeys
  show ?thesis unfolding CallKeys exec.simps Keys_sim[OF s]
    by (cases "Keys d1") (auto simp: rsim_def s option.rel_map intro!: option.rel_refl)
next
  case CallValues
  show ?thesis unfolding CallValues exec.simps Values_sim[OF s]
    by (cases "Values d1") (auto simp: rsim_def s option.rel_map intro!: option.rel_refl)
next
  case (CallAll yield)
  show ?thesis unfolding CallAll exec.simps All_sim[OF s]
    by (cases "All d1 yield") (auto simp: rsim_def s option.rel_map intro!: option.rel_refl)
next
  case CallClear
  show ?thesis unfolding CallClear exec.simps by (simp add: rsim_def Clear_sim[OF s])
next
  case (CallMoveToStart k)
  show ?thesis unfolding CallMoveToStart exec.simps
    by (simp, rule rel_option_map_left[OF MoveToStart_sim[OF s]]) (auto simp: rsim_def)
next
  case (CallMoveToEnd k)
  show ?thesis unfolding CallMoveToEnd exec.simps
    by (simp, rule rel_option_map_left[OF MoveToEnd_sim[OF s]]) (auto simp: rsim_def)
next
  case (CallMoveAfter k after)
  show ?thesis unfolding CallMoveAfter exec.simps
    by (simp, rule rel_option_map_left[OF MoveAfter_sim[OF s]]) (auto simp: rsim_def)
qed

lemma trace_sim: "sim n d1 d2 \<Longrightarrow> trace cs d2 = trace cs d1"
proof (induction cs arbitrary: d1 d2)
  case Nil
  show ?case by simp
next
  case (Cons c cs)
  note r = exec_sim[OF Cons.prems, of c]
  show ?case
  proof (cases "exec c d1")
    case None
    then show ?thesis using r by (cases "exec c d2") simp_all
  next
    case o: (Some o1)
    then obtain o2 where o2: "exec c d2 = Some o2" "rel_option (rsim n) o1 o2"
      using r by (cases "exec c d2") simp_all
    show ?thesis
    proof (cases o1)
      case None
      then show ?thesis using o o2 by (cases o2) simp_all
    next
      case (Some x)
      then obtain y where y: "o2 = Some y" "rsim n x y" using o2(2) by (cases o2) simp_all
      obtain r1 e1 where x: "x = (r1, e1)" by (cases x)
      obtain r2 e2 where y2: "y = (r2, e2)" by (cases y)
      have "r2 = r1" "sim n e1 e2" using y(2) by (simp_all add: rsim_def x y2)
      then show ?thesis using Cons.IH[of e1 e2] by (simp add: o o2(1) Some y(1) x y2)
    qed
  qed
qed

lemma sim_New_Clear:
  assumes "alloc_ok d"
  shows "sim (nextfree d) New (Clear d)"
proof -
  have "\<And>a. heap (Clear d) (a + nextfree d) = map_option (shift_node (nextfree d)) (heap New a)"
  proof -
    fix a :: nat
    consider "a = 0" | "a = 1" | "2 \<le> a" by linarith
    then show "heap (Clear d) (a + nextfree d) = map_option (shift_node (nextfree d)) (heap New a)"
    proof cases
      case 1
      then show ?thesis by (simp add: Clear_def Let_def New_def shift_node_def)
    next
      case 2
      then show ?thesis by (simp add: Clear_def Let_def New_def shift_node_def)
    next
      case 3
      then have "heap d (a + nextfree d) = None" using assms by (auto simp: alloc_ok_def)
      then show ?thesis using 3 by (simp add: Clear_def Let_def New_def)
    qed
  qed
  then show ?thesis by (simp add: sim_def hsim_def) (simp add: Clear_def Let_def New_def)
qed

subsection \<open>Allocation\<close>

lemma set_next_dom: "set_next h p q = Some h' \<Longrightarrow> dom h' = dom h"
  by (auto simp: set_next_def split: option.splits if_splits)

lemma set_prev_dom: "set_prev h p q = Some h' \<Longrightarrow> dom h' = dom h"
  by (auto simp: set_prev_def split: option.splits if_splits)

lemma set_val_dom: "set_val h p v = Some h' \<Longrightarrow> dom h' = dom h"
  by (auto simp: set_val_def split: option.splits if_splits)

lemma alloc_ok_dom: "alloc_ok d = (dom (heap d) \<subseteq> {..<nextfree d})"
  by (auto simp: alloc_ok_def)

lemma unlinkNode_frame:
  assumes "unlinkNode d a = Some d'"
  shows "dom (heap d') = dom (heap d) \<and> nextfree d' = nextfree d"
proof -
  from assms obtain p q h1 p' q' h2 where
    "set_next (heap d) p q = Some h1" "set_prev h1 p' q' = Some h2" "d' = d\<lparr>heap := h2\<rparr>"
    by (auto simp: unlinkNode_def bind_eq_Some_conv)
  then show ?thesis using set_next_dom[of "heap d" p q h1] set_prev_dom[of h1 p' q' h2] by simp
qed

lemma linkToEnd_frame:
  assumes "linkToEnd d a = Some d'"
  shows "dom (heap d') = dom (heap d) \<and> nextfree d' = nextfree d"
proof -
  from assms obtain p1 q1 h1 p2 q2 h2 p3 q3 h3 p4 q4 h4 where
    "set_prev (heap d) p1 q1 = Some h1" "set_next h1 p2 q2 = Some h2"
    "set_next h2 p3 q3 = Some h3" "set_prev h3 p4 q4 = Some h4" "d' = d\<lparr>heap := h4\<rparr>"
    by (auto simp: linkToEnd_def Let_def bind_eq_Some_conv)
  then show ?thesis
    using set_prev_dom[of "heap d" p1 q1 h1] set_next_dom[of h1 p2 q2 h2]
      set_next_dom[of h2 p3 q3 h3] set_prev_dom[of h3 p4 q4 h4] by simp
qed

lemma linkToStart_frame:
  assumes "linkToStart d a = Some d'"
  shows "dom (heap d') = dom (heap d) \<and> nextfree d' = nextfree d"
proof -
  from assms obtain p1 q1 h1 p2 q2 h2 p3 q3 h3 p4 q4 h4 where
    "set_next (heap d) p1 q1 = Some h1" "set_prev h1 p2 q2 = Some h2"
    "set_prev h2 p3 q3 = Some h3" "set_next h3 p4 q4 = Some h4" "d' = d\<lparr>heap := h4\<rparr>"
    by (auto simp: linkToStart_def Let_def bind_eq_Some_conv)
  then show ?thesis
    using set_next_dom[of "heap d" p1 q1 h1] set_prev_dom[of h1 p2 q2 h2]
      set_prev_dom[of h2 p3 q3 h3] set_next_dom[of h3 p4 q4 h4] by simp
qed

lemma linkAfter_frame:
  assumes "linkAfter d a b = Some d'"
  shows "dom (heap d') = dom (heap d) \<and> nextfree d' = nextfree d"
proof -
  from assms obtain p1 q1 h1 p2 q2 h2 p3 q3 h3 p4 q4 h4 where
    "set_next (heap d) p1 q1 = Some h1" "set_prev h1 p2 q2 = Some h2"
    "set_next h2 p3 q3 = Some h3" "set_prev h3 p4 q4 = Some h4" "d' = d\<lparr>heap := h4\<rparr>"
    by (auto simp: linkAfter_def Let_def bind_eq_Some_conv)
  then show ?thesis
    using set_next_dom[of "heap d" p1 q1 h1] set_prev_dom[of h1 p2 q2 h2]
      set_next_dom[of h2 p3 q3 h3] set_prev_dom[of h3 p4 q4 h4] by simp
qed

lemma alloc_ok_frame:
  "alloc_ok d \<Longrightarrow> dom (heap d') = dom (heap d) \<and> nextfree d' = nextfree d \<Longrightarrow> alloc_ok d'"
  by (simp add: alloc_ok_dom)

lemma alloc_ok_Set:
  assumes ok: "alloc_ok d" and run: "Set d k v = Some d'"
  shows "alloc_ok d'"
proof (cases "data d k")
  case None
  define d1 where "d1 = snd (alloc d k v)"
  have ok1: "alloc_ok d1" using ok by (auto simp: d1_def alloc_def alloc_ok_def less_Suc_eq)
  from run None obtain d2 where d2: "linkToEnd d1 (nextfree d) = Some d2"
    "d' = d2\<lparr>data := (data d2)(k \<mapsto> nextfree d), len := len d2 + 1\<rparr>"
    by (auto simp: Set_def alloc_def Let_def d1_def bind_eq_Some_conv)
  have "alloc_ok d2" using alloc_ok_frame[OF ok1 linkToEnd_frame[OF d2(1)]] .
  then show ?thesis by (simp add: d2(2) alloc_ok_def)
next
  case (Some a)
  with run obtain h where h: "set_val (heap d) (Some a) v = Some h" "d' = d\<lparr>heap := h\<rparr>"
    by (auto simp: Set_def bind_eq_Some_conv)
  show ?thesis using ok set_val_dom[OF h(1)] by (simp add: alloc_ok_dom h(2))
qed

lemma alloc_ok_Delete:
  assumes ok: "alloc_ok d" and run: "Delete d k = Some (r, d')"
  shows "alloc_ok d'"
proof (cases "data d k")
  case None
  then show ?thesis using ok run by (simp add: Delete_def)
next
  case (Some a)
  with run obtain d1 where d1: "unlinkNode d a = Some d1"
    "d' = d1\<lparr>data := (data d1)(k := None), len := len d1 - 1\<rparr>"
    by (auto simp: Delete_def bind_eq_Some_conv)
  have "alloc_ok d1" using alloc_ok_frame[OF ok unlinkNode_frame[OF d1(1)]] .
  then show ?thesis by (simp add: d1(2) alloc_ok_def)
qed

lemma alloc_ok_Remove: "alloc_ok d \<Longrightarrow> Remove d k = Some (r, d') \<Longrightarrow> alloc_ok d'"
  by (auto simp: Remove_def bind_eq_Some_conv dest: alloc_ok_Delete)

lemma alloc_ok_MoveToEnd:
  assumes ok: "alloc_ok d" and run: "MoveToEnd d k = Some (r, d')"
  shows "alloc_ok d'"
proof (cases "data d k")
  case None
  then show ?thesis using ok run by (simp add: MoveToEnd_def)
next
  case (Some a)
  with run obtain d1 where d1: "unlinkNode d a = Some d1" "linkToEnd d1 a = Some d'"
    by (auto simp: MoveToEnd_def bind_eq_Some_conv)
  have "alloc_ok d1" using alloc_ok_frame[OF ok unlinkNode_frame[OF d1(1)]] .
  then show ?thesis using alloc_ok_frame[OF _ linkToEnd_frame[OF d1(2)]] by simp
qed

lemma alloc_ok_MoveToStart:
  assumes ok: "alloc_ok d" and run: "MoveToStart d k = Some (r, d')"
  shows "alloc_ok d'"
proof (cases "data d k")
  case None
  then show ?thesis using ok run by (simp add: MoveToStart_def)
next
  case (Some a)
  with run obtain d1 where d1: "unlinkNode d a = Some d1" "linkToStart d1 a = Some d'"
    by (auto simp: MoveToStart_def bind_eq_Some_conv)
  have "alloc_ok d1" using alloc_ok_frame[OF ok unlinkNode_frame[OF d1(1)]] .
  then show ?thesis using alloc_ok_frame[OF _ linkToStart_frame[OF d1(2)]] by simp
qed

lemma alloc_ok_MoveAfter:
  assumes ok: "alloc_ok d" and run: "MoveAfter d k after = Some (r, d')"
  shows "alloc_ok d'"
proof (cases "data d after")
  case None
  then show ?thesis using ok run by (simp add: MoveAfter_def)
next
  case b: (Some b)
  show ?thesis
  proof (cases "data d k")
    case None
    then show ?thesis using ok run b by (simp add: MoveAfter_def)
  next
    case (Some a)
    with run b obtain d1 where d1: "unlinkNode d a = Some d1" "linkAfter d1 a b = Some d'"
      by (auto simp: MoveAfter_def bind_eq_Some_conv)
    have "alloc_ok d1" using alloc_ok_frame[OF ok unlinkNode_frame[OF d1(1)]] .
    then show ?thesis using alloc_ok_frame[OF _ linkAfter_frame[OF d1(2)]] by simp
  qed
qed

lemma alloc_ok_Clear: "alloc_ok d \<Longrightarrow> alloc_ok (Clear d)"
  by (auto simp: alloc_ok_def Clear_def Let_def less_Suc_eq split: if_splits)

lemma alloc_ok_New: "alloc_ok New"
  by (auto simp: alloc_ok_def New_def split: if_splits)

lemma alloc_ok_exec:
  assumes "alloc_ok d" and "exec c d = Some (Some (r, d'))"
  shows "alloc_ok d'"
  using assms
  by (cases c)
     (auto dest: alloc_ok_Set alloc_ok_Delete alloc_ok_Remove alloc_ok_MoveToEnd
        alloc_ok_MoveToStart alloc_ok_MoveAfter alloc_ok_Clear)

lemma reachable_alloc_ok: "reachable d \<Longrightarrow> alloc_ok d"
  by (induction rule: reachable.induct) (auto intro: alloc_ok_New alloc_ok_exec)

lemma observe_Clear:
  fixes d :: "('k::default, 'v::default) OrderedDict"
  assumes "alloc_ok d"
  shows "observe (Clear d) = observe (New :: ('k, 'v) OrderedDict)"
proof -
  have 1: "observe (Clear d) = obs_of []"
    using wf_observe[OF wf_Clear, of d] assms by (simp add: alloc_ok_def entries_def)
  have 2: "observe (New :: ('k, 'v) OrderedDict) = obs_of []"
    using wf_observe[OF wf_New] by (simp add: entries_def)
  show ?thesis by (simp add: 1 2)
qed

subsection \<open>Every call but a self-move keeps the invariant\<close>

lemma invariant_Keys: "invariant d \<Longrightarrow> \<exists>ks. Keys d = Some (Some ks)"
  by (auto simp: invariant_def dest: wf_Keys)

lemma invariant_Values: "invariant d \<Longrightarrow> \<exists>vs. Values d = Some (Some vs)"
  by (auto simp: invariant_def dest: wf_Values)

lemma invariant_All: "invariant d \<Longrightarrow> \<exists>ps. All d yield = Some (Some ps)"
  by (auto simp: invariant_def dest: dll_All[OF wf_dll])

lemma invariant_Get: "invariant d \<Longrightarrow> \<exists>v ok. Get d k = Some (v, ok)"
  by (auto simp: invariant_def dest!: wf_Get[where k = k] split: option.splits)

lemma invariant_Delete: "invariant d \<Longrightarrow> \<exists>r d'. Delete d k = Some (r, d') \<and> invariant d'"
proof -
  assume i: "invariant d"
  then obtain as where w: "well_formed d as" by (auto simp: invariant_def)
  show ?thesis
  proof (cases "data d k")
    case None
    then show ?thesis using i by (auto simp: Delete_def)
  next
    case (Some a)
    from wf_Delete[OF w Some] show ?thesis unfolding invariant_def by blast
  qed
qed

lemma invariant_Remove: "invariant d \<Longrightarrow> \<exists>r d'. Remove d k = Some (r, d') \<and> invariant d'"
  using invariant_Delete[of d k] by (auto simp: Remove_def)

lemma invariant_MoveToEnd: "invariant d \<Longrightarrow> \<exists>r d'. MoveToEnd d k = Some (r, d') \<and> invariant d'"
proof -
  assume i: "invariant d"
  then obtain as where w: "well_formed d as" by (auto simp: invariant_def)
  show ?thesis
  proof (cases "data d k")
    case None
    then show ?thesis using i by (auto simp: MoveToEnd_def)
  next
    case (Some a)
    from wf_MoveToEnd[OF w Some] show ?thesis unfolding invariant_def by blast
  qed
qed

lemma invariant_MoveToStart: "invariant d \<Longrightarrow> \<exists>r d'. MoveToStart d k = Some (r, d') \<and> invariant d'"
proof -
  assume i: "invariant d"
  then obtain as where w: "well_formed d as" by (auto simp: invariant_def)
  show ?thesis
  proof (cases "data d k")
    case None
    then show ?thesis using i by (auto simp: MoveToStart_def)
  next
    case (Some a)
    from wf_MoveToStart[OF w Some] show ?thesis unfolding invariant_def by blast
  qed
qed

lemma invariant_MoveAfter:
  assumes i: "invariant d" and ns: "k \<noteq> after \<or> \<not> Has d k"
  shows "\<exists>r d'. MoveAfter d k after = Some (r, d') \<and> invariant d'"
proof -
  from i obtain as where w: "well_formed d as" by (auto simp: invariant_def)
  show ?thesis
  proof (cases "Has d k \<and> Has d after")
    case False
    then show ?thesis using i MoveAfter_absent[of d k after] by auto
  next
    case True
    then obtain a b where ab: "data d k = Some a" "data d after = Some b"
      by (auto simp: Has_iff)
    have "k \<noteq> after" using ns True by auto
    from wf_MoveAfter[OF w ab this] show ?thesis unfolding invariant_def by blast
  qed
qed

lemma invariant_Clear: "invariant d \<Longrightarrow> invariant (Clear d)"
  using wf_Clear[of d] by (auto simp: invariant_def well_formed_def)

lemma invariant_exec:
  assumes i: "invariant d" and ns: "\<not> self_move c d"
  shows "\<exists>r d'. exec c d = Some (Some (r, d')) \<and> invariant d'"
proof (cases c)
  case (CallSet k v)
  then show ?thesis using invariant_Set[OF i, of k v] by auto
next
  case (CallGet k)
  then show ?thesis using invariant_Get[OF i, of k] i by auto
next
  case (CallHas k)
  then show ?thesis using i by simp
next
  case (CallDelete k)
  then show ?thesis using invariant_Delete[OF i, of k] by auto
next
  case (CallRemove k)
  then show ?thesis using invariant_Remove[OF i, of k] by auto
next
  case CallLen
  then show ?thesis using i by simp
next
  case CallKeys
  then show ?thesis using invariant_Keys[OF i] i by auto
next
  case CallValues
  then show ?thesis using invariant_Values[OF i] i by auto
next
  case (CallAll yield)
  then show ?thesis using invariant_All[OF i, of yield] i by auto
next
  case CallClear
  then show ?thesis using invariant_Clear[OF i] by simp
next
  case (CallMoveToStart k)
  then show ?thesis using invariant_MoveToStart[OF i, of k] by auto
next
  case (CallMoveToEnd k)
  then show ?thesis using invariant_MoveToEnd[OF i, of k] by auto
next
  case (CallMoveAfter k after)
  then have "k \<noteq> after \<or> \<not> Has d k" using ns by auto
  from invariant_MoveAfter[OF i this] show ?thesis using CallMoveAfter by auto
qed

lemma reachable_Set: "reachable d \<Longrightarrow> Set d k v = Some d' \<Longrightarrow> reachable d'"
  by (rule reachable.step[where c = "CallSet k v" and r = Done]) simp_all

lemma abc_eq:
  "\<exists>d1 d2. Set New ''a'' 1 = Some d1 \<and> Set d1 ''b'' 2 = Some d2 \<and> Set d2 ''c'' 3 = Some abc"
proof -
  from invariant_Set[OF invariant_New, of "''a''" 1] obtain d1 :: "(string, int) OrderedDict"
    where d1: "Set New ''a'' 1 = Some d1" "invariant d1" by blast
  from invariant_Set[OF d1(2), of "''b''" 2] obtain d2
    where d2: "Set d1 ''b'' 2 = Some d2" "invariant d2" by blast
  from invariant_Set[OF d2(2), of "''c''" 3] obtain d3
    where d3: "Set d2 ''c'' 3 = Some d3" "invariant d3" by blast
  show ?thesis using d1 d2 d3 by (simp add: abc_def)
qed

lemma reachable_abc: "reachable abc"
  using abc_eq reachable_Set[OF reachable_Set[OF reachable_Set[OF reachable.fresh]]] by blast

lemmas trace_defs = trace.simps exec.simps

subsection \<open>The two implementations\<close>

lemma main_Delete_eq: "main_Delete d k = Delete d k"
  by (auto simp: main_Delete_def Delete_def unlinkNode_def split: option.splits bind_splits)

lemma main_Remove_eq: "main_Remove d k = Remove d k"
  by (simp add: main_Remove_def Remove_def main_Delete_eq)

lemma main_Get_eq: "main_Get d k = Get d k"
  by (simp add: main_Get_def Get_def)

lemma main_Has_eq: "invariant d \<Longrightarrow> main_Has d k = Some (Has d k)"
  using invariant_Get[of d k]
  by (auto simp: main_Has_def main_Get_eq Has_def Get_def split: option.splits bind_splits)

lemma main_Set_eq:
  assumes "invariant d"
  shows "main_Set d k v = Set d k v"
proof (cases "data d k")
  case (Some a)
  then show ?thesis by (simp add: main_Set_def Set_def)
next
  case None
  from assms obtain as where w: "well_formed d as" by (auto simp: invariant_def)
  define n where "n = nextfree d"
  define p where "p = last (head d # as)"
  have fresh: "heap d n = None" "n \<notin> set (head d # as @ [tail d])"
    using wf_fresh[OF w] by (simp_all add: n_def)
  have dl: "dll d as" using w by (rule wf_dll)
  have p_in: "p \<in> set (head d # as)" unfolding p_def by (rule last_in_set) simp
  obtain tn where tn: "heap d (tail d) = Some tn" using dll_alloc[OF dl, of "tail d"] by auto
  have ptn: "prev tn = Some p" using dll_pv_tail[OF dl] tn by (simp add: pv_def p_def)
  obtain pn where pn: "heap d p = Some pn" using dll_alloc[OF dl, of p] p_in by auto
  have ne: "n \<noteq> tail d" "n \<noteq> p" "p \<noteq> tail d"
    using fresh(2) p_in dl by (auto simp: dll_def)
  show ?thesis
    using ne by (simp add: main_Set_def Set_def None alloc_def Let_def linkToEnd_def
          n_def[symmetric] tn ptn pn set_prev_def set_next_def fun_upd_twist)
qed

lemma main_exec_eq: "invariant d \<Longrightarrow> main_exec c d = exec (to_call c) d"
  by (cases c)
     (simp_all add: main_Set_eq main_Get_eq main_Has_eq main_Delete_eq main_Remove_eq
        main_Len_def Len_def main_Keys_def Keys_def main_Values_def Values_def
        main_All_def All_def)

lemma not_self_move_to_call: "\<not> self_move (to_call c) d"
  by (cases c) simp_all

lemma main_trace_eq: "invariant d \<Longrightarrow> main_trace cs d = trace (map to_call cs) d"
proof (induction cs arbitrary: d)
  case Nil
  show ?case by simp
next
  case (Cons c cs)
  from invariant_exec[OF Cons.prems not_self_move_to_call, of c] obtain r d' where
    e: "exec (to_call c) d = Some (Some (r, d'))" "invariant d'" by blast
  show ?case using Cons.IH[OF e(2)] by (simp add: main_exec_eq[OF Cons.prems] e(1))
qed

lemma main_New_eq: "main_New = New"
  by (simp add: main_New_def New_def)

lemmas step_defs = interleave.simps delete_step.simps acquire_def release_def unlocked_def

subsection \<open>Delete, one statement at a time\<close>

lemma delete_alone_absent:
  "data d k = None \<Longrightarrow>
   interleave m [0, 0] [AtLock k] \<lparr>mu = unlocked, dict = d\<rparr>
     = Some ([Returned_from (default, False)], \<lparr>mu = unlocked, dict = d\<rparr>)"
  by (cases m) (simp_all add: step_defs)

lemma delete_alone_present:
  "data d k = Some a \<Longrightarrow>
   interleave m [0, 0, 0, 0, 0, 0, 0] [AtLock k] \<lparr>mu = unlocked, dict = d\<rparr>
     = map_option (\<lambda>(r, d'). ([Returned_from r], \<lparr>mu = unlocked, dict = d'\<rparr>)) (Delete d k)"
  by (cases m)
     (auto simp: step_defs Delete_def unlinkNode_def split: option.splits bind_splits)

lemma exclusive_blocks:
  "writer (mu s) \<or> readers (mu s) \<noteq> 0 \<Longrightarrow> delete_step Exclusive (AtLock k) s = None"
  by (auto simp: acquire_def)

lemma exclusive_schedule_blocked:
  "interleave Exclusive [0, 1] [AtLock ''a'', AtLock ''b''] \<lparr>mu = unlocked, dict = ab\<rparr> = None"
  by (simp add: step_defs ab_def run_defs)

lemma shared_admits:
  "\<not> writer (mu s) \<Longrightarrow> delete_step Shared (AtLock k) s \<noteq> None"
  by (simp add: acquire_def)

subsection \<open>With the write lock two callers of Delete run one after the other\<close>

lemma complete_returned: "complete m (Returned_from r) s = Some (r, s)"
  by (simp add: complete.simps)

lemma complete_step:
  assumes "delete_step m t s = Some (t', s')"
  shows "complete m t s = complete m t' s'"
proof -
  have "\<And>r. t \<noteq> Returned_from r" using assms by auto
  then show ?thesis using assms
    by (subst complete.simps) (auto simp del: delete_step.simps split: deleting.splits)
qed

lemma complete_Delete:
  "complete m (AtLock k) \<lparr>mu = unlocked, dict = d\<rparr>
     = map_option (\<lambda>(r, d'). (r, \<lparr>mu = unlocked, dict = d'\<rparr>)) (Delete d k)"
  by (cases m)
     (auto simp: complete.simps acquire_def release_def unlocked_def Delete_def unlinkNode_def
           split: option.splits bind_splits)

lemma exclusive_step_cases:
  assumes st: "delete_step Exclusive t s = Some (t', s')"
    and r: "readers (mu s) = 0" and w: "writer (mu s) = (holding t \<or> holding u)"
    and one: "\<not> (holding t \<and> holding u)"
  shows "\<not> holding u" and "readers (mu s') = 0" and "writer (mu s') = holding t'"
proof -
  show nu: "\<not> holding u"
  proof (cases t)
    case (AtLock k)
    then show ?thesis using st w by (auto simp: acquire_def split: if_splits)
  next
    case (Returned_from x)
    then show ?thesis using st by simp
  qed (use one in auto)
  show "readers (mu s') = 0" "writer (mu s') = holding t'"
    using st r w nu
    by (cases t; auto simp: acquire_def release_def bind_eq_Some_conv split: if_splits option.splits)+
qed

lemma step_not_AtLock: "delete_step m t s = Some (t', s') \<Longrightarrow> t' \<noteq> AtLock k"
  by (cases t) (auto simp: bind_eq_Some_conv split: option.splits)

lemma not_holding_cases: "\<not> holding t \<Longrightarrow> (\<exists>k. t = AtLock k) \<or> (\<exists>r. t = Returned_from r)"
  by (cases t) auto

lemma serial_step:
  "delete_step m t s = Some (t', s1) \<Longrightarrow> serial m t' u s1 r q s' \<Longrightarrow> serial m t u s r q s'"
  by (simp add: serial_def complete_step)

lemma serial_swap_returned:
  assumes st: "delete_step m t s = Some (Returned_from x, s1)"
    and sr: "serial m u (Returned_from x) s1 q r s'"
  shows "serial m t u s r q s'"
  using sr complete_step[OF st]
  by (auto simp: serial_def complete_returned)

lemma exclusive_serial:
  assumes "interleave Exclusive sched [t0, t1] s = Some ([Returned_from r0, Returned_from r1], s')"
    and "readers (mu s) = 0" and "writer (mu s) = (holding t0 \<or> holding t1)"
    and "\<not> (holding t0 \<and> holding t1)"
  shows "(holding t0 \<longrightarrow> serial Exclusive t0 t1 s r0 r1 s')
       \<and> (holding t1 \<longrightarrow> serial Exclusive t1 t0 s r1 r0 s')
       \<and> (serial Exclusive t0 t1 s r0 r1 s' \<or> serial Exclusive t1 t0 s r1 r0 s')"
  using assms
proof (induction sched arbitrary: t0 t1 s)
  case Nil
  then show ?case by (simp add: serial_def complete_returned)
next
  case (Cons i sched)
  from Cons.prems(1) have i: "i = 0 \<or> i = 1"
    by (cases "i < 2") (auto simp: less_2_cases_iff)
  then show ?case
  proof
    assume i0: "i = 0"
    from Cons.prems(1) i0 obtain t0' s1 where
      st: "delete_step Exclusive t0 s = Some (t0', s1)"
      and rest: "interleave Exclusive sched [t0', t1] s1
                   = Some ([Returned_from r0, Returned_from r1], s')"
      by (auto simp del: delete_step.simps split: option.splits)
    have w: "writer (mu s) = (holding t0 \<or> holding t1)" using Cons.prems(3) .
    note ex = exclusive_step_cases[OF st Cons.prems(2) w Cons.prems(4)]
    have ih: "(holding t0' \<longrightarrow> serial Exclusive t0' t1 s1 r0 r1 s')
       \<and> (holding t1 \<longrightarrow> serial Exclusive t1 t0' s1 r1 r0 s')
       \<and> (serial Exclusive t0' t1 s1 r0 r1 s' \<or> serial Exclusive t1 t0' s1 r1 r0 s')"
      using Cons.IH[OF rest ex(2)] ex(1) ex(3) by simp
    have ser: "serial Exclusive t0 t1 s r0 r1 s'"
    proof (cases "holding t0'")
      case True
      then show ?thesis using ih serial_step[OF st] by blast
    next
      case False
      then obtain x where x: "t0' = Returned_from x"
        using not_holding_cases[of t0'] step_not_AtLock[OF st] by blast
      from ih show ?thesis
      proof (elim conjE disjE)
        assume "serial Exclusive t0' t1 s1 r0 r1 s'"
        then show ?thesis using serial_step[OF st] by blast
      next
        assume sr: "serial Exclusive t1 t0' s1 r1 r0 s'"
        show ?thesis using serial_swap_returned[OF st[unfolded x] sr[unfolded x]] .
      qed
    qed
    show ?thesis using ser ex(1) by simp
  next
    assume i1: "i = 1"
    from Cons.prems(1) i1 obtain t1' s1 where
      st: "delete_step Exclusive t1 s = Some (t1', s1)"
      and rest: "interleave Exclusive sched [t0, t1'] s1
                   = Some ([Returned_from r0, Returned_from r1], s')"
      by (auto simp del: delete_step.simps split: option.splits)
    have w: "writer (mu s) = (holding t1 \<or> holding t0)" using Cons.prems(3) by blast
    have one: "\<not> (holding t1 \<and> holding t0)" using Cons.prems(4) by blast
    note ex = exclusive_step_cases[OF st Cons.prems(2) w one]
    have ih: "(holding t0 \<longrightarrow> serial Exclusive t0 t1' s1 r0 r1 s')
       \<and> (holding t1' \<longrightarrow> serial Exclusive t1' t0 s1 r1 r0 s')
       \<and> (serial Exclusive t0 t1' s1 r0 r1 s' \<or> serial Exclusive t1' t0 s1 r1 r0 s')"
      using Cons.IH[OF rest ex(2)] ex(1) ex(3) by simp
    have ser: "serial Exclusive t1 t0 s r1 r0 s'"
    proof (cases "holding t1'")
      case True
      then show ?thesis using ih serial_step[OF st] by blast
    next
      case False
      then obtain x where x: "t1' = Returned_from x"
        using not_holding_cases[of t1'] step_not_AtLock[OF st] by blast
      from ih show ?thesis
      proof (elim conjE disjE)
        assume "serial Exclusive t1' t0 s1 r1 r0 s'"
        then show ?thesis using serial_step[OF st] by blast
      next
        assume sr: "serial Exclusive t0 t1' s1 r0 r1 s'"
        show ?thesis using serial_swap_returned[OF st[unfolded x] sr[unfolded x]] .
      qed
    qed
    show ?thesis using ser ex(1) by simp
  qed
qed

lemma exclusive_Delete_serial:
  assumes "interleave Exclusive sched [AtLock j, AtLock k] \<lparr>mu = unlocked, dict = d\<rparr>
             = Some ([Returned_from r, Returned_from q], s')"
  shows "(\<exists>d1 d2. Delete d j = Some (r, d1) \<and> Delete d1 k = Some (q, d2)
                 \<and> s' = \<lparr>mu = unlocked, dict = d2\<rparr>)
       \<or> (\<exists>d1 d2. Delete d k = Some (q, d1) \<and> Delete d1 j = Some (r, d2)
                 \<and> s' = \<lparr>mu = unlocked, dict = d2\<rparr>)"
proof -
  have "serial Exclusive (AtLock j) (AtLock k) \<lparr>mu = unlocked, dict = d\<rparr> r q s'
      \<or> serial Exclusive (AtLock k) (AtLock j) \<lparr>mu = unlocked, dict = d\<rparr> q r s'"
    using exclusive_serial[OF assms] by (simp add: unlocked_def)
  then show ?thesis
    by (auto simp: serial_def complete_Delete)
qed

subsection \<open>MoveAfter with the same key twice\<close>

lemma wf_MoveAfter_same_key:
  assumes w: "well_formed d as" and k: "data d k = Some a"
  shows "\<exists>d'. MoveAfter d k k = Some (True, d')
           \<and> Keys d' = Some (Some (map fst (entries d (remove1 a as))))
           \<and> Values d' = Some (Some (map snd (entries d (remove1 a as))))
           \<and> kv (heap d') = kv (heap d) \<and> data d' = data d \<and> len d' = len d"
proof -
  have a: "a \<in> set as" using wf_index_in[OF w k] .
  have dl: "dll d as" using w by (rule wf_dll)
  from unlinkNode_dll[OF dl a] obtain d1 where
    d1: "unlinkNode d a = Some d1" "dll d1 (remove1 a as)" "kv (heap d1) = kv (heap d)"
        "dom (heap d1) = dom (heap d)" "d1 = d\<lparr>heap := heap d1\<rparr>"
        "nx (heap d1) a = nx (heap d) a" by blast
  let ?h = "heap d1"
  have ht: "head d1 = head d" "tail d1 = tail d" by (subst d1(5), simp)+
  from a obtain ys zs where as: "as = ys @ a # zs" by (auto dest: split_list)
  obtain s rest where sr: "zs @ [tail d] = s # rest" by (cases zs) auto
  have "links (nx (heap d)) (pv (heap d)) (head d) (ys @ a # s # rest)"
    using dl by (simp add: dll_def as sr[symmetric])
  then have na: "nx (heap d) a = Some s" by (simp add: links_append)
  have "s \<in> set (head d # as @ [tail d])" using sr by (auto simp: as)
  then have s_alloc: "heap d s \<noteq> None" using dll_alloc[OF dl] by blast
  have a_alloc: "heap d a \<noteq> None" using dll_alloc[OF dl, of a] a by simp
  then obtain an where an: "?h a = Some an" using d1(4) by (metis domIff not_Some_eq)
  have nan: "next an = Some s" using an d1(6) na by (simp add: nx_def)
  have "?h a \<noteq> None" using an by simp
  from set_next_ok[of ?h a "Some s", OF this] obtain h1 where
    h1: "set_next ?h (Some a) (Some s) = Some h1" "nx h1 = (nx ?h)(a := Some s)"
        "pv h1 = pv ?h" "kv h1 = kv ?h" "dom h1 = dom ?h" by blast
  have "h1 a \<noteq> None" using an h1(5) by (metis domIff option.distinct(1))
  from set_prev_ok[of h1 a "Some a", OF this] obtain h2 where
    h2: "set_prev h1 (Some a) (Some a) = Some h2" "pv h2 = (pv h1)(a := Some a)"
        "nx h2 = nx h1" "kv h2 = kv h1" "dom h2 = dom h1" by blast
  have "h2 a \<noteq> None" using an h1(5) h2(5) by (metis domIff option.distinct(1))
  from set_next_ok[of h2 a "Some a", OF this] obtain h3 where
    h3: "set_next h2 (Some a) (Some a) = Some h3" "nx h3 = (nx h2)(a := Some a)"
        "pv h3 = pv h2" "kv h3 = kv h2" "dom h3 = dom h2" by blast
  have "h3 s \<noteq> None" using s_alloc d1(4) h1(5) h2(5) h3(5) by (metis domIff)
  from set_prev_ok[of h3 s "Some a", OF this] obtain h4 where
    h4: "set_prev h3 (Some s) (Some a) = Some h4" "pv h4 = (pv h3)(s := Some a)"
        "nx h4 = nx h3" "kv h4 = kv h3" "dom h4 = dom h3" by blast
  let ?d' = "d1\<lparr>heap := h4\<rparr>"
  have la: "linkAfter d1 a a = Some ?d'"
    by (simp add: linkAfter_def an nan h1(1) h2(1) h3(1) h4(1))
  have run: "MoveAfter d k k = Some (True, ?d')"
    by (simp add: MoveAfter_def k d1(1) la)
  have notin: "a \<notin> set (head d # remove1 a as @ [tail d])"
    using dl a by (auto simp: dll_def)
  then have "a \<notin> set (butlast (head d # remove1 a as @ [tail d]))"
    by (meson in_set_butlastD)
  moreover have "links (nx ?h) (pv ?h) (head d) (remove1 a as @ [tail d])"
    using d1(2) by (simp add: dll_def ht)
  ultimately have fw: "links (nx h4) (pv ?h) (head ?d') (remove1 a as @ [tail ?d'])"
    by (simp add: h4 h3 h2 h1 ht links_upd_nx del: butlast.simps)
  have tl: "tail ?d' \<notin> set (remove1 a as)" using d1(2) by (simp add: dll_def ht)
  have kv': "kv h4 = kv (heap d)" by (simp add: h4 h3 h2 h1 d1(3))
  have e: "entries ?d' (remove1 a as) = entries d (remove1 a as)"
    by (rule entries_kv) (simp add: kv')
  have K: "Keys ?d' = Some (Some (map fst (entries d (remove1 a as))))"
    using fwd_Keys[of ?d' "pv ?h" "remove1 a as"] fw tl by (simp add: e)
  have V: "Values ?d' = Some (Some (map snd (entries d (remove1 a as))))"
    using fwd_Values[of ?d' "pv ?h" "remove1 a as"] fw tl by (simp add: e)
  have "data ?d' = data d" "len ?d' = len d" by (subst d1(5), simp)+
  then show ?thesis using run K V kv' by auto
qed

lemma MoveAfter_same_key_drops_key:
  assumes "invariant d" and "Has d k" and "Keys d = Some (Some ks)"
  shows "\<exists>d'. MoveAfter d k k = Some (True, d')
           \<and> Keys d' = Some (Some (filter (\<lambda>k'. k' \<noteq> k) ks))
           \<and> k \<in> set ks
           \<and> Len d' = Len d \<and> (\<forall>k'. Get d' k' = Get d k' \<and> Has d' k' = Has d k')"
proof -
  from assms(1,2) obtain as a where w: "well_formed d as" and ka: "data d k = Some a"
    by (auto simp: invariant_def Has_iff)
  from wf_MoveAfter_same_key[OF w ka] obtain d' where
    d': "MoveAfter d k k = Some (True, d')"
        "Keys d' = Some (Some (map fst (entries d (remove1 a as))))"
        "kv (heap d') = kv (heap d)" "data d' = data d" "len d' = len d" by blast
  have ks: "ks = map fst (entries d as)" using wf_Keys[OF w] assms(3) by simp
  have "map fst (entries d (remove1 a as)) = filter (\<lambda>k'. k' \<noteq> k) ks"
    by (simp add: entries_remove1[OF w ka] ks filter_map comp_def)
  moreover have "k \<in> set ks" using wf_Has[OF w, of k] assms(2) by (simp add: ks)
  ultimately show ?thesis
    using d'(1,2) Get_cong[OF d'(4) d'(3)] Has_cong[OF d'(4)] d'(5) by (auto simp: Len_def)
qed

subsection \<open>The operations on a well-formed container\<close>

lemma Set_absent_well_formed:
  assumes "invariant d" and "\<not> Has d k"
  shows "\<exists>d' ks vs n.
      Set d k v = Some d' \<and> invariant d'
    \<and> Keys d = Some (Some ks) \<and> Values d = Some (Some vs)
    \<and> Keys d' = Some (Some (ks @ [k])) \<and> Values d' = Some (Some (vs @ [v]))
    \<and> Len d' = Len d + 1
    \<and> Has d' k \<and> Get d' k = Some (v, True)
    \<and> (\<forall>k'. k' \<noteq> k \<longrightarrow> Has d' k' = Has d k' \<and> Get d' k' = Get d k')
    \<and> n \<notin> dom (heap d) \<and> dom (heap d') = insert n (dom (heap d))
    \<and> data d' = (data d)(k \<mapsto> n)
    \<and> (\<exists>nd t. heap d' n = Some nd \<and> key nd = k \<and> val nd = v \<and> next nd = Some (tail d')
          \<and> heap d' (tail d') = Some t \<and> prev t = Some n)"
proof -
  from assms(1) obtain as where w: "well_formed d as" by (auto simp: invariant_def)
  have kn: "data d k = None" using assms(2) by (simp add: Has_iff)
  define n where "n = nextfree d"
  from wf_Set_new[OF w kn, of v] obtain d' where
    d': "Set d k v = Some d'" "well_formed d' (as @ [n])"
        "kv (heap d') = (kv (heap d))(n \<mapsto> (k, v))"
        "data d' = (data d)(k \<mapsto> n)" "dom (heap d') = insert n (dom (heap d))"
        "len d' = len d + 1"
    unfolding n_def by blast
  have fresh: "heap d n = None" "n \<notin> set as" using wf_fresh[OF w] by (simp_all add: n_def)
  have e: "entries d' (as @ [n]) = entries d as @ [(k, v)]"
    using fresh(2) by (auto simp: entries_def entry_def d'(3))
  have o: "observe d = obs_of (entries d as)" "observe d' = obs_of (entries d as @ [(k, v)])"
    using wf_observe[OF w] wf_observe[OF d'(2)] by (simp_all add: e)
  have K: "Keys d = Some (Some (map fst (entries d as)))"
          "Values d = Some (Some (map snd (entries d as)))"
          "Keys d' = Some (Some (map fst (entries d as) @ [k]))"
          "Values d' = Some (Some (map snd (entries d as) @ [v]))"
    using o by (simp_all add: observe_def obs_of_def)
  have L: "Len d' = Len d + 1" by (simp add: Len_def d'(6))
  have H: "Has d' k" by (simp add: Has_iff d'(4))
  have notin: "k \<notin> fst ` set (entries d as)" using wf_Has[OF w, of k] assms(2) by simp
  then have mo: "map_of (entries d as) k = None" by (simp add: map_of_eq_None_iff)
  have G: "Get d' k = Some (v, True)"
    using wf_Get[OF d'(2), of k] mo by (simp add: e map_add_def)
  have others: "\<forall>k'. k' \<noteq> k \<longrightarrow> Has d' k' = Has d k' \<and> Get d' k' = Get d k'"
    using wf_Get[OF d'(2)] wf_Get[OF w]
    by (auto simp: Has_iff d'(4) e map_add_def split: option.splits)
  from wf_link_last[OF d'(2)] obtain nd t where
    nd: "heap d' n = Some nd" "next nd = Some (tail d')"
        "heap d' (tail d') = Some t" "prev t = Some n" by blast
  have "kv (heap d') n = Some (k, v)" by (simp add: d'(3))
  then have kvn: "key nd = k" "val nd = v" using nd(1) by (simp_all add: kv_def)
  have inv': "invariant d'" using d'(2) by (auto simp: invariant_def)
  have "n \<notin> dom (heap d)" using fresh(1) by auto
  then show ?thesis
    using d'(1) inv' K L H G others d'(5) d'(4) nd kvn by blast
qed

lemma Set_present_well_formed:
  assumes "invariant d" and "Has d k"
  shows "\<exists>d' ks vs a nd.
      Set d k v = Some d' \<and> invariant d'
    \<and> data d k = Some a \<and> heap d a = Some nd
    \<and> d' = d\<lparr>heap := (heap d)(a \<mapsto> nd\<lparr>val := v\<rparr>)\<rparr>
    \<and> Len d' = Len d
    \<and> Keys d = Some (Some ks) \<and> Keys d' = Some (Some ks)
    \<and> Values d = Some (Some vs)
    \<and> Values d' = Some (Some (map (\<lambda>(k', v'). if k' = k then v else v') (zip ks vs)))
    \<and> Get d' k = Some (v, True)
    \<and> (\<forall>k'. Has d' k' = Has d k')
    \<and> (\<forall>k'. k' \<noteq> k \<longrightarrow> Get d' k' = Get d k')"
proof -
  from assms(1) obtain as where w: "well_formed d as" by (auto simp: invariant_def)
  from assms(2) obtain a where ka: "data d k = Some a" by (auto simp: Has_iff)
  from wf_Set_existing[OF w ka, of v] obtain d' nd where
    d': "Set d k v = Some d'" "well_formed d' as" "kv (heap d') = (kv (heap d))(a \<mapsto> (k, v))"
        "data d' = data d" "heap d a = Some nd" "d' = d\<lparr>heap := (heap d)(a \<mapsto> nd\<lparr>val := v\<rparr>)\<rparr>"
    by blast
  let ?ps = "entries d as"
  let ?f = "\<lambda>(k', v'). if k' = k then (k', v) else (k', v')"
  have e: "entries d' as = map ?f ?ps" by (rule entries_update[OF w ka d'(3)])
  have fst_f: "map fst (map ?f ?ps) = map fst ?ps" by (rule map_fst_set_value)
  have K: "Keys d = Some (Some (map fst ?ps))" "Values d = Some (Some (map snd ?ps))"
          "Keys d' = Some (Some (map fst ?ps))" "Values d' = Some (Some (map snd (map ?f ?ps)))"
    using wf_Keys[OF w] wf_Values[OF w] wf_Keys[OF d'(2)] wf_Values[OF d'(2)]
    unfolding e fst_f by blast+
  have V: "map snd (map ?f ?ps)
      = map (\<lambda>(k', v'). if k' = k then v else v') (zip (map fst ?ps) (map snd ?ps))"
    by (simp add: zip_map_fst_snd) (auto split: prod.splits)
  have L: "Len d' = Len d" by (subst d'(6)) (simp add: Len_def)
  have H: "\<forall>k'. Has d' k' = Has d k'" by (simp add: Has_iff d'(4))
  have kin: "k \<in> fst ` set ?ps" using wf_Has[OF w, of k] assms(2) by simp
  have mo: "\<And>k'. map_of (map ?f ?ps) k' = (if k' = k then Some v else map_of ?ps k')"
  proof -
    fix k'
    have "map_of (map ?f ?ps) k' = (if k' = k then map_option (\<lambda>_. v) (map_of ?ps k') else map_of ?ps k')"
      by (rule map_of_set_value)
    moreover obtain v0 where "map_of ?ps k = Some v0"
      using kin by (metis map_of_eq_None_iff not_Some_eq)
    ultimately show "map_of (map ?f ?ps) k' = (if k' = k then Some v else map_of ?ps k')" by auto
  qed
  have G: "Get d' k = Some (v, True)" using wf_Get[OF d'(2), of k] by (simp add: e mo)
  have G': "\<forall>k'. k' \<noteq> k \<longrightarrow> Get d' k' = Get d k'"
    using wf_Get[OF d'(2)] wf_Get[OF w] by (simp add: e mo)
  have inv': "invariant d'" using d'(2) by (auto simp: invariant_def)
  show ?thesis
    using d'(1) inv' ka d'(5) d'(6) L K(1,3) K(2) K(4)[unfolded V] G H G' by blast
qed

lemma Delete_Remove_well_formed:
  "(\<not> Has d k \<longrightarrow> Delete d k = Some ((default, False), d) \<and> Remove d k = Some (False, d))
   \<and> (invariant d \<and> Has d k \<longrightarrow>
        (\<exists>d' v ks vs.
            Delete d k = Some ((v, True), d') \<and> Remove d k = Some (True, d')
          \<and> Get d k = Some (v, True) \<and> invariant d'
          \<and> Keys d = Some (Some ks) \<and> Values d = Some (Some vs)
          \<and> distinct ks \<and> k \<in> set ks
          \<and> Keys d' = Some (Some (filter (\<lambda>k'. k' \<noteq> k) ks))
          \<and> Values d' = Some (Some (map snd (filter (\<lambda>p. fst p \<noteq> k) (zip ks vs))))
          \<and> Len d' = Len d - 1
          \<and> \<not> Has d' k \<and> Get d' k = Some (default, False)
          \<and> (\<forall>k'. k' \<noteq> k \<longrightarrow> Has d' k' = Has d k' \<and> Get d' k' = Get d k')))"
proof (intro conjI impI)
  assume "\<not> Has d k"
  then show "Delete d k = Some ((default, False), d)" "Remove d k = Some (False, d)"
    by (simp_all add: Delete_absent Remove_absent)
next
  assume "invariant d \<and> Has d k"
  then obtain as a where w: "well_formed d as" and ka: "data d k = Some a"
    by (auto simp: invariant_def Has_iff)
  from wf_Delete[OF w ka] obtain d' v where
    d': "Delete d k = Some ((v, True), d')" "kv (heap d) a = Some (k, v)"
        "well_formed d' (remove1 a as)" "kv (heap d') = kv (heap d)" "data d' = (data d)(k := None)"
    by blast
  let ?ps = "entries d as"
  have e: "entries d' (remove1 a as) = filter (\<lambda>p. fst p \<noteq> k) ?ps"
    using entries_remove1[OF w ka] by (simp add: entries_kv[OF d'(4)])
  have R: "Remove d k = Some (True, d')" by (simp add: Remove_def d'(1))
  have a_in: "a \<in> set as" using wf_index_in[OF w ka] .
  have "(k, v) \<in> set ?ps" using a_in d'(2) by (force simp: entries_def entry_def)
  then have mo: "map_of ?ps k = Some v" using wf_distinct_keys[OF w] by simp
  have G: "Get d k = Some (v, True)" using wf_Get[OF w, of k] by (simp add: mo)
  have K: "Keys d = Some (Some (map fst ?ps))" "Values d = Some (Some (map snd ?ps))"
    using wf_Keys[OF w] wf_Values[OF w] by blast+
  have K': "Keys d' = Some (Some (filter (\<lambda>k'. k' \<noteq> k) (map fst ?ps)))"
    using wf_Keys[OF d'(3)] unfolding e by (simp add: filter_map comp_def)
  have V': "Values d' = Some (Some (map snd (filter (\<lambda>p. fst p \<noteq> k) (zip (map fst ?ps) (map snd ?ps)))))"
    using wf_Values[OF d'(3)] unfolding e by (simp add: zip_map_fst_snd)
  have dk: "distinct (map fst ?ps)" "k \<in> set (map fst ?ps)"
    using wf_distinct_keys[OF w] wf_Has[OF w, of k] ka by (simp_all add: Has_iff)
  have L: "Len d' = Len d - 1"
    using wf_Len[OF w] wf_Len[OF d'(3)] a_in by (simp add: length_remove1_int)
  have H: "\<not> Has d' k" by (simp add: Has_iff d'(5))
  have G0: "Get d' k = Some (default, False)" by (simp add: Get_def d'(5))
  have O: "\<forall>k'. k' \<noteq> k \<longrightarrow> Has d' k' = Has d k' \<and> Get d' k' = Get d k'"
    using wf_Get[OF d'(3)] wf_Get[OF w]
    by (simp add: Has_iff d'(5) e map_of_filter_other)
  have inv': "invariant d'" using d'(3) by (auto simp: invariant_def)
  show "\<exists>d' v ks vs.
            Delete d k = Some ((v, True), d') \<and> Remove d k = Some (True, d')
          \<and> Get d k = Some (v, True) \<and> invariant d'
          \<and> Keys d = Some (Some ks) \<and> Values d = Some (Some vs)
          \<and> distinct ks \<and> k \<in> set ks
          \<and> Keys d' = Some (Some (filter (\<lambda>k'. k' \<noteq> k) ks))
          \<and> Values d' = Some (Some (map snd (filter (\<lambda>p. fst p \<noteq> k) (zip ks vs))))
          \<and> Len d' = Len d - 1
          \<and> \<not> Has d' k \<and> Get d' k = Some (default, False)
          \<and> (\<forall>k'. k' \<noteq> k \<longrightarrow> Has d' k' = Has d k' \<and> Get d' k' = Get d k')"
    using d'(1) R G inv' K dk K' V' L H G0 O by blast
qed

lemma MoveAfter_well_formed:
  "(\<not> Has d k \<or> \<not> Has d after \<longrightarrow> MoveAfter d k after = Some (False, d))
   \<and> (invariant d \<and> Has d k \<and> Has d after \<and> k \<noteq> after \<longrightarrow>
        (\<exists>d' ks xs ys.
            MoveAfter d k after = Some (True, d') \<and> invariant d'
          \<and> Keys d = Some (Some ks) \<and> distinct ks \<and> k \<in> set ks \<and> after \<in> set ks
          \<and> filter (\<lambda>k'. k' \<noteq> k) ks = xs @ after # ys
          \<and> Keys d' = Some (Some (xs @ after # k # ys))
          \<and> Len d' = Len d
          \<and> (\<forall>k'. Get d' k' = Get d k' \<and> Has d' k' = Has d k')))"
proof (intro conjI impI)
  assume "\<not> Has d k \<or> \<not> Has d after"
  then show "MoveAfter d k after = Some (False, d)" by (rule MoveAfter_absent)
next
  assume "invariant d \<and> Has d k \<and> Has d after \<and> k \<noteq> after"
  then obtain as n b where w: "well_formed d as" and kn: "data d k = Some n"
    and ab: "data d after = Some b" and neq: "k \<noteq> after"
    by (auto simp: invariant_def Has_iff)
  from wf_MoveAfter[OF w kn ab neq] obtain d' ys zs where
    d': "MoveAfter d k after = Some (True, d')" "remove1 n as = ys @ b # zs"
        "well_formed d' (ys @ b # n # zs)" "kv (heap d') = kv (heap d)" "data d' = data d"
    by blast
  let ?ps = "entries d as"
  have kb: "fst (entry (heap d) b) = after" and kk: "fst (entry (heap d) n) = k"
    using wf_key_at[OF w ab] wf_key_at[OF w kn] by simp_all
  have "filter (\<lambda>p. fst p \<noteq> k) ?ps = entries d (ys @ b # zs)"
    using entries_remove1[OF w kn] by (simp add: d'(2))
  then have "filter (\<lambda>k'. k' \<noteq> k) (map fst ?ps) = map fst (entries d (ys @ b # zs))"
    by (simp add: filter_map comp_def)
  then have F: "filter (\<lambda>k'. k' \<noteq> k) (map fst ?ps)
      = map fst (entries d ys) @ after # map fst (entries d zs)"
    by (simp add: entries_def kb)
  have "Keys d' = Some (Some (map fst (entries d (ys @ b # n # zs))))"
    using wf_Keys[OF d'(3)] by (simp add: entries_kv[OF d'(4)])
  then have K': "Keys d' = Some (Some (map fst (entries d ys) @ after # k # map fst (entries d zs)))"
    by (simp add: entries_def kb kk)
  have n_in: "n \<in> set as" using wf_index_in[OF w kn] .
  have "length (ys @ b # n # zs) = length as"
    using length_remove1_Suc[OF n_in] by (simp add: d'(2))
  then have L: "Len d' = Len d" using wf_Len[OF w] wf_Len[OF d'(3)] by simp
  have G: "\<forall>k'. Get d' k' = Get d k' \<and> Has d' k' = Has d k'"
    using Get_cong[OF d'(5) d'(4)] Has_cong[OF d'(5)] by simp
  have inv': "invariant d'" using d'(3) by (auto simp: invariant_def)
  have D: "distinct (map fst ?ps)" "k \<in> set (map fst ?ps)" "after \<in> set (map fst ?ps)"
    using wf_distinct_keys[OF w] wf_Has[OF w, of k] wf_Has[OF w, of after] kn ab
    by (simp_all add: Has_iff)
  show "\<exists>d' ks xs ys.
            MoveAfter d k after = Some (True, d') \<and> invariant d'
          \<and> Keys d = Some (Some ks) \<and> distinct ks \<and> k \<in> set ks \<and> after \<in> set ks
          \<and> filter (\<lambda>k'. k' \<noteq> k) ks = xs @ after # ys
          \<and> Keys d' = Some (Some (xs @ after # k # ys))
          \<and> Len d' = Len d
          \<and> (\<forall>k'. Get d' k' = Get d k' \<and> Has d' k' = Has d k')"
    using d'(1) inv' wf_Keys[OF w] D F K' L G by blast
qed

lemma MoveToEnd_MoveToStart_well_formed:
  "(\<not> Has d k \<longrightarrow> MoveToEnd d k = Some (False, d) \<and> MoveToStart d k = Some (False, d))
   \<and> (invariant d \<and> Keys d = Some (Some ks) \<and> ks \<noteq> [] \<and> last ks = k \<longrightarrow>
        (\<exists>d'. MoveToEnd d k = Some (True, d') \<and> invariant d' \<and> observe d' = observe d))
   \<and> (invariant d \<and> Keys d = Some (Some ks) \<and> ks \<noteq> [] \<and> hd ks = k \<longrightarrow>
        (\<exists>d'. MoveToStart d k = Some (True, d') \<and> invariant d' \<and> observe d' = observe d))"
proof (intro conjI impI)
  assume "\<not> Has d k"
  then show "MoveToEnd d k = Some (False, d)" "MoveToStart d k = Some (False, d)"
    by (simp_all add: MoveToEnd_absent MoveToStart_absent)
next
  assume "invariant d \<and> Keys d = Some (Some ks) \<and> ks \<noteq> [] \<and> last ks = k"
  then obtain as where w: "well_formed d as" and K: "Keys d = Some (Some ks)" "ks \<noteq> []" "last ks = k"
    by (auto simp: invariant_def)
  have ks: "ks = map fst (entries d as)" using wf_Keys[OF w] K(1) by simp
  then have ne: "as \<noteq> []" using K(2) by (auto simp: entries_def)
  have "k = fst (entry (heap d) (last as))"
    using K(3) ne by (simp add: ks entries_def last_map)
  then have ka: "data d k = Some (last as)" using wf_key_iff[OF w, of "last as" k] ne by simp
  from wf_MoveToEnd[OF w ka] obtain d' where
    d': "MoveToEnd d k = Some (True, d')" "well_formed d' (remove1 (last as) as @ [last as])"
        "kv (heap d') = kv (heap d)" by blast
  have w': "well_formed d' as" using d'(2) remove1_last[OF wf_distinct[OF w] ne] by simp
  show "\<exists>d'. MoveToEnd d k = Some (True, d') \<and> invariant d' \<and> observe d' = observe d"
    using d'(1) w' observe_eq[OF w w' d'(3)] by (auto simp: invariant_def)
next
  assume "invariant d \<and> Keys d = Some (Some ks) \<and> ks \<noteq> [] \<and> hd ks = k"
  then obtain as where w: "well_formed d as" and K: "Keys d = Some (Some ks)" "ks \<noteq> []" "hd ks = k"
    by (auto simp: invariant_def)
  have ks: "ks = map fst (entries d as)" using wf_Keys[OF w] K(1) by simp
  then have ne: "as \<noteq> []" using K(2) by (auto simp: entries_def)
  have "k = fst (entry (heap d) (hd as))"
    using K(3) ne by (simp add: ks entries_def hd_map)
  then have ka: "data d k = Some (hd as)" using wf_key_iff[OF w, of "hd as" k] ne by simp
  from wf_MoveToStart[OF w ka] obtain d' where
    d': "MoveToStart d k = Some (True, d')" "well_formed d' (hd as # remove1 (hd as) as)"
        "kv (heap d') = kv (heap d)" by blast
  have w': "well_formed d' as" using d'(2) remove1_hd[OF ne] by simp
  show "\<exists>d'. MoveToStart d k = Some (True, d') \<and> invariant d' \<and> observe d' = observe d"
    using d'(1) w' observe_eq[OF w w' d'(3)] by (auto simp: invariant_def)
qed

subsection \<open>The index in every reachable state\<close>

lemma keyed_kv: "(\<exists>nd. h a = Some nd \<and> key nd = k) = (\<exists>v. kv h a = Some (k, v))"
  by (cases "h a") (auto simp: kv_def)

lemma indexed_kv:
  "indexed d = (\<forall>k a. data d k = Some a \<longrightarrow> (\<exists>v. kv (heap d) a = Some (k, v)))"
  by (simp add: indexed_def keyed_kv)

lemma set_next_kv:
  assumes "set_next h p q = Some h'"
  shows "kv h' = kv h"
proof -
  from assms obtain a n where "h a = Some n" "h' = h(a \<mapsto> n\<lparr>next := q\<rparr>)"
    by (auto simp: set_next_def split: option.splits)
  then show ?thesis by (intro ext) (simp add: kv_def)
qed

lemma set_prev_kv:
  assumes "set_prev h p q = Some h'"
  shows "kv h' = kv h"
proof -
  from assms obtain a n where "h a = Some n" "h' = h(a \<mapsto> n\<lparr>prev := q\<rparr>)"
    by (auto simp: set_prev_def split: option.splits)
  then show ?thesis by (intro ext) (simp add: kv_def)
qed

lemma unlinkNode_kv:
  assumes "unlinkNode d a = Some d'"
  shows "kv (heap d') = kv (heap d) \<and> data d' = data d"
proof -
  from assms obtain p q h1 p' q' h2 where
    "set_next (heap d) p q = Some h1" "set_prev h1 p' q' = Some h2" "d' = d\<lparr>heap := h2\<rparr>"
    by (auto simp: unlinkNode_def bind_eq_Some_conv)
  then show ?thesis using set_next_kv[of "heap d" p q h1] set_prev_kv[of h1 p' q' h2] by simp
qed

lemma linkToEnd_kv:
  assumes "linkToEnd d a = Some d'"
  shows "kv (heap d') = kv (heap d) \<and> data d' = data d"
proof -
  from assms obtain p1 q1 h1 p2 q2 h2 p3 q3 h3 p4 q4 h4 where
    "set_prev (heap d) p1 q1 = Some h1" "set_next h1 p2 q2 = Some h2"
    "set_next h2 p3 q3 = Some h3" "set_prev h3 p4 q4 = Some h4" "d' = d\<lparr>heap := h4\<rparr>"
    by (auto simp: linkToEnd_def Let_def bind_eq_Some_conv)
  then show ?thesis
    using set_prev_kv[of "heap d" p1 q1 h1] set_next_kv[of h1 p2 q2 h2]
      set_next_kv[of h2 p3 q3 h3] set_prev_kv[of h3 p4 q4 h4] by simp
qed

lemma linkToStart_kv:
  assumes "linkToStart d a = Some d'"
  shows "kv (heap d') = kv (heap d) \<and> data d' = data d"
proof -
  from assms obtain p1 q1 h1 p2 q2 h2 p3 q3 h3 p4 q4 h4 where
    "set_next (heap d) p1 q1 = Some h1" "set_prev h1 p2 q2 = Some h2"
    "set_prev h2 p3 q3 = Some h3" "set_next h3 p4 q4 = Some h4" "d' = d\<lparr>heap := h4\<rparr>"
    by (auto simp: linkToStart_def Let_def bind_eq_Some_conv)
  then show ?thesis
    using set_next_kv[of "heap d" p1 q1 h1] set_prev_kv[of h1 p2 q2 h2]
      set_prev_kv[of h2 p3 q3 h3] set_next_kv[of h3 p4 q4 h4] by simp
qed

lemma linkAfter_kv:
  assumes "linkAfter d a b = Some d'"
  shows "kv (heap d') = kv (heap d) \<and> data d' = data d"
proof -
  from assms obtain p1 q1 h1 p2 q2 h2 p3 q3 h3 p4 q4 h4 where
    "set_next (heap d) p1 q1 = Some h1" "set_prev h1 p2 q2 = Some h2"
    "set_next h2 p3 q3 = Some h3" "set_prev h3 p4 q4 = Some h4" "d' = d\<lparr>heap := h4\<rparr>"
    by (auto simp: linkAfter_def Let_def bind_eq_Some_conv)
  then show ?thesis
    using set_next_kv[of "heap d" p1 q1 h1] set_prev_kv[of h1 p2 q2 h2]
      set_next_kv[of h2 p3 q3 h3] set_prev_kv[of h3 p4 q4 h4] by simp
qed

lemma indexed_frame:
  "indexed d \<Longrightarrow> kv (heap d') = kv (heap d) \<and> data d' = data d \<Longrightarrow> indexed d'"
  by (simp add: indexed_kv)

lemma indexed_New: "indexed New"
  by (simp add: indexed_def New_def)

lemma indexed_Clear: "indexed (Clear d)"
  by (simp add: indexed_def Clear_def Let_def)

lemma indexed_node:
  "indexed d \<Longrightarrow> data d k = Some a \<Longrightarrow> \<exists>nd. heap d a = Some nd \<and> key nd = k"
  by (simp add: indexed_def)

lemma indexed_Set:
  assumes ix: "indexed d" and ok: "alloc_ok d" and run: "Set d k v = Some d'"
  shows "indexed d'"
proof (cases "data d k")
  case None
  define d1 where "d1 = snd (alloc d k v)"
  from run None obtain d2 where d2: "linkToEnd d1 (nextfree d) = Some d2"
    "d' = d2\<lparr>data := (data d2)(k \<mapsto> nextfree d), len := len d2 + 1\<rparr>"
    by (auto simp: Set_def alloc_def Let_def d1_def bind_eq_Some_conv)
  have kv1: "kv (heap d1) = (kv (heap d))(nextfree d \<mapsto> (k, v))"
    by (simp add: d1_def alloc_def kv_upd)
  have dd1: "data d1 = data d" by (simp add: d1_def alloc_def)
  note f = linkToEnd_kv[OF d2(1)]
  have fresh: "\<And>k' a. data d k' = Some a \<Longrightarrow> a \<noteq> nextfree d"
  proof
    fix k' a assume "data d k' = Some a" "a = nextfree d"
    then have "heap d (nextfree d) \<noteq> None" using indexed_node[OF ix] by auto
    then show False using ok by (auto simp: alloc_ok_def)
  qed
  show ?thesis
    unfolding indexed_kv
  proof (intro allI impI)
    fix k' a assume a: "data d' k' = Some a"
    show "\<exists>v. kv (heap d') a = Some (k', v)"
    proof (cases "k' = k")
      case True
      then show ?thesis using a by (simp add: d2(2) f kv1)
    next
      case False
      then have "data d k' = Some a" using a by (simp add: d2(2) f dd1)
      then show ?thesis using ix fresh[of k' a] by (auto simp: indexed_kv d2(2) f kv1)
    qed
  qed
next
  case (Some a)
  from indexed_node[OF ix Some] obtain nd where nd: "heap d a = Some nd" "key nd = k" by blast
  with run Some have d': "d' = d\<lparr>heap := (heap d)(a \<mapsto> nd\<lparr>val := v\<rparr>)\<rparr>"
    by (simp add: Set_def set_val_def)
  show ?thesis
    unfolding indexed_def
  proof (intro allI impI)
    fix k' b assume "data d' k' = Some b"
    then have b: "data d k' = Some b" by (simp add: d')
    from indexed_node[OF ix b] obtain n where n: "heap d b = Some n" "key n = k'" by blast
    show "\<exists>n'. heap d' b = Some n' \<and> key n' = k'"
      using n nd by (cases "b = a") (simp_all add: d')
  qed
qed

lemma indexed_Delete:
  assumes ix: "indexed d" and run: "Delete d k = Some (r, d')"
  shows "indexed d'"
proof (cases "data d k")
  case None
  then show ?thesis using run ix by (simp add: Delete_def)
next
  case (Some a)
  with run obtain d1 where d1: "unlinkNode d a = Some d1"
    "d' = d1\<lparr>data := (data d1)(k := None), len := len d1 - 1\<rparr>"
    by (auto simp: Delete_def bind_eq_Some_conv)
  note f = unlinkNode_kv[OF d1(1)]
  show ?thesis using ix by (auto simp: indexed_kv d1(2) f)
qed

lemma indexed_Remove: "indexed d \<Longrightarrow> Remove d k = Some (r, d') \<Longrightarrow> indexed d'"
  by (auto simp: Remove_def bind_eq_Some_conv dest: indexed_Delete)

lemma indexed_MoveToEnd:
  assumes ix: "indexed d" and run: "MoveToEnd d k = Some (r, d')"
  shows "indexed d'"
proof (cases "data d k")
  case None
  then show ?thesis using run ix by (simp add: MoveToEnd_def)
next
  case (Some a)
  with run obtain d1 where d1: "unlinkNode d a = Some d1" "linkToEnd d1 a = Some d'"
    by (auto simp: MoveToEnd_def bind_eq_Some_conv)
  show ?thesis
    using indexed_frame[OF indexed_frame[OF ix unlinkNode_kv[OF d1(1)]] linkToEnd_kv[OF d1(2)]] .
qed

lemma indexed_MoveToStart:
  assumes ix: "indexed d" and run: "MoveToStart d k = Some (r, d')"
  shows "indexed d'"
proof (cases "data d k")
  case None
  then show ?thesis using run ix by (simp add: MoveToStart_def)
next
  case (Some a)
  with run obtain d1 where d1: "unlinkNode d a = Some d1" "linkToStart d1 a = Some d'"
    by (auto simp: MoveToStart_def bind_eq_Some_conv)
  show ?thesis
    using indexed_frame[OF indexed_frame[OF ix unlinkNode_kv[OF d1(1)]] linkToStart_kv[OF d1(2)]] .
qed

lemma indexed_MoveAfter:
  assumes ix: "indexed d" and run: "MoveAfter d k after = Some (r, d')"
  shows "indexed d'"
proof (cases "data d after")
  case None
  then show ?thesis using run ix by (simp add: MoveAfter_def)
next
  case (Some b)
  show ?thesis
  proof (cases "data d k")
    case None
    then show ?thesis using run ix Some by (simp add: MoveAfter_def)
  next
    case (Some a)
    with run \<open>data d after = Some b\<close> obtain d1 where
      d1: "unlinkNode d a = Some d1" "linkAfter d1 a b = Some d'"
      by (auto simp: MoveAfter_def bind_eq_Some_conv)
    show ?thesis
      using indexed_frame[OF indexed_frame[OF ix unlinkNode_kv[OF d1(1)]] linkAfter_kv[OF d1(2)]] .
  qed
qed

lemma indexed_exec:
  assumes "indexed d" and "alloc_ok d" and "exec c d = Some (Some (r, d'))"
  shows "indexed d'"
  using assms
  by (cases c)
     (auto dest: indexed_Set indexed_Delete indexed_Remove indexed_MoveToEnd
        indexed_MoveToStart indexed_MoveAfter simp: indexed_Clear)

lemma reachable_indexed: "reachable d \<Longrightarrow> indexed d"
  by (induction rule: reachable.induct)
     (auto intro: indexed_New indexed_exec dest: reachable_alloc_ok)

subsection \<open>Stores that differ in the values of one key\<close>

lemma differ_at_key_sym: "differ_at_key k h h' \<Longrightarrow> differ_at_key k h' h"
  unfolding differ_at_key_def
proof (intro allI)
  fix a assume r: "\<forall>a. rel_option (\<lambda>n n'. next n' = next n \<and> key n' = key n
                              \<and> (key n \<noteq> k \<longrightarrow> val n' = val n)) (h a) (h' a)"
  show "rel_option (\<lambda>n n'. next n' = next n \<and> key n' = key n
                              \<and> (key n \<noteq> k \<longrightarrow> val n' = val n)) (h' a) (h a)"
    using r[rule_format, of a] by (cases "h a"; cases "h' a") auto
qed

lemma differ_at_key_load:
  "differ_at_key k h h' \<Longrightarrow>
     rel_option (\<lambda>n n'. next n' = next n \<and> key n' = key n \<and> (key n \<noteq> k \<longrightarrow> val n' = val n))
       (load h p) (load h' p)"
  by (cases p) (simp_all add: load_def differ_at_key_def)

lemma differ_at_key_set_val:
  "h a = Some nd \<Longrightarrow> key nd = k \<Longrightarrow> differ_at_key k h (h(a \<mapsto> nd\<lparr>val := v\<rparr>))"
  unfolding differ_at_key_def
proof (intro allI)
  fix b assume "h a = Some nd" "key nd = k"
  then show "rel_option (\<lambda>n n'. next n' = next n \<and> key n' = key n
                              \<and> (key n \<noteq> k \<longrightarrow> val n' = val n)) (h b) ((h(a \<mapsto> nd\<lparr>val := v\<rparr>)) b)"
    by (cases "h b") (auto simp: option.rel_refl_strong)
qed

lemma keys_loop_differ1:
  assumes "keys_loop h cur t acc = Some y"
  shows "\<forall>h'. differ_at_key k h h' \<longrightarrow> keys_loop h' cur t acc = Some y"
proof (rule keys_loop.raw_induct[where P = "\<lambda>h cur t acc y.
         \<forall>h'. differ_at_key k h h' \<longrightarrow> keys_loop h' cur t acc = Some y", OF _ assms],
       goal_cases)
  case (1 f h cur t acc y)
  show ?case
  proof (intro allI impI)
    fix h' assume hs: "differ_at_key k h h'"
    note ld = differ_at_key_load[OF hs, of cur]
    show "keys_loop h' cur t acc = Some y"
    proof (cases "cur = Some t")
      case True
      then show ?thesis using 1(2) by (subst keys_loop.simps) simp
    next
      case False
      show ?thesis
      proof (cases "load h cur")
        case None
        then show ?thesis using 1(2) False ld by (subst keys_loop.simps) simp
      next
        case (Some nd)
        then obtain nd' where nd': "load h' cur = Some nd'" "next nd' = next nd" "key nd' = key nd"
          using ld by (auto simp: option_rel_Some1)
        from Some have "f h (next nd) t (acc @ [key nd]) = Some y" using 1(2) False by simp
        from 1(1)[OF this] hs show ?thesis using False nd'
          by (subst keys_loop.simps) simp
      qed
    qed
  qed
qed

lemma keys_loop_differ:
  assumes "differ_at_key k h h'"
  shows "keys_loop h' cur t acc = keys_loop h cur t acc"
proof (cases "keys_loop h cur t acc")
  case None
  show ?thesis
  proof (cases "keys_loop h' cur t acc")
    case None
    then show ?thesis using \<open>keys_loop h cur t acc = None\<close> by simp
  next
    case (Some y)
    from keys_loop_differ1[OF this] differ_at_key_sym[OF assms] show ?thesis using Some by simp
  qed
next
  case (Some y)
  from keys_loop_differ1[OF this] assms show ?thesis using Some by simp
qed

lemma values_loop_differ1:
  assumes "values_loop h cur t acc = Some y"
  shows "\<forall>h' acc' kacc. differ_at_key k h h' \<and> length kacc = length acc
            \<and> list_all2 (\<lambda>(k', x) x'. k' \<noteq> k \<longrightarrow> x' = x) (zip kacc acc) acc'
          \<longrightarrow> (\<exists>y'. values_loop h' cur t acc' = Some y'
                 \<and> rel_option (\<lambda>vs vs'. \<exists>ks. keys_loop h cur t kacc = Some (Some ks)
                        \<and> length ks = length vs
                        \<and> list_all2 (\<lambda>(k', x) x'. k' \<noteq> k \<longrightarrow> x' = x) (zip ks vs) vs') y y')"
proof (rule values_loop.raw_induct[where P = "\<lambda>h cur t acc y.
         \<forall>h' acc' kacc. differ_at_key k h h' \<and> length kacc = length acc
            \<and> list_all2 (\<lambda>(k', x) x'. k' \<noteq> k \<longrightarrow> x' = x) (zip kacc acc) acc'
          \<longrightarrow> (\<exists>y'. values_loop h' cur t acc' = Some y'
                 \<and> rel_option (\<lambda>vs vs'. \<exists>ks. keys_loop h cur t kacc = Some (Some ks)
                        \<and> length ks = length vs
                        \<and> list_all2 (\<lambda>(k', x) x'. k' \<noteq> k \<longrightarrow> x' = x) (zip ks vs) vs') y y')",
       OF _ assms], goal_cases)
  case (1 f h cur t acc y)
  show ?case
  proof (intro allI impI, elim conjE)
    fix h' acc' kacc
    assume hs: "differ_at_key k h h'" and len: "length kacc = length acc"
      and la: "list_all2 (\<lambda>(k', x) x'. k' \<noteq> k \<longrightarrow> x' = x) (zip kacc acc) acc'"
    note ld = differ_at_key_load[OF hs, of cur]
    let ?goal = "\<exists>y'. values_loop h' cur t acc' = Some y'
                 \<and> rel_option (\<lambda>vs vs'. \<exists>ks. keys_loop h cur t kacc = Some (Some ks)
                        \<and> length ks = length vs
                        \<and> list_all2 (\<lambda>(k', x) x'. k' \<noteq> k \<longrightarrow> x' = x) (zip ks vs) vs') y y'"
    show ?goal
    proof (cases "cur = Some t")
      case True
      then have y: "y = Some acc" using 1(2) by simp
      have "values_loop h' cur t acc' = Some (Some acc')"
        using True by (subst values_loop.simps) simp
      moreover have "keys_loop h cur t kacc = Some (Some kacc)"
        using True by (subst keys_loop.simps) simp
      ultimately show ?thesis using y len la by simp
    next
      case False
      show ?thesis
      proof (cases "load h cur")
        case None
        then have y: "y = None" using 1(2) False by simp
        have "load h' cur = None" using ld None by simp
        then have "values_loop h' cur t acc' = Some None"
          using False by (subst values_loop.simps) simp
        then show ?thesis using y by simp
      next
        case (Some nd)
        then obtain nd' where nd': "load h' cur = Some nd'" "next nd' = next nd"
            "key nd' = key nd" "key nd \<noteq> k \<longrightarrow> val nd' = val nd"
          using ld by (auto simp: option_rel_Some1)
        from Some have st: "f h (next nd) t (acc @ [val nd]) = Some y" using 1(2) False by simp
        have len': "length (kacc @ [key nd]) = length (acc @ [val nd])" using len by simp
        have la': "list_all2 (\<lambda>(k', x) x'. k' \<noteq> k \<longrightarrow> x' = x)
                     (zip (kacc @ [key nd]) (acc @ [val nd])) (acc' @ [val nd'])"
          using la len nd'(4) by (simp add: list_all2_appendI)
        from 1(1)[OF st, rule_format, of h' "kacc @ [key nd]" "acc' @ [val nd']"] hs len' la'
        obtain y' where y': "values_loop h' (next nd) t (acc' @ [val nd']) = Some y'"
          "rel_option (\<lambda>vs vs'. \<exists>ks. keys_loop h (next nd) t (kacc @ [key nd]) = Some (Some ks)
                        \<and> length ks = length vs
                        \<and> list_all2 (\<lambda>(k', x) x'. k' \<noteq> k \<longrightarrow> x' = x) (zip ks vs) vs') y y'"
          by blast
        have v: "values_loop h' cur t acc' = values_loop h' (next nd) t (acc' @ [val nd'])"
          using False nd' by (subst values_loop.simps) simp
        have kk: "keys_loop h cur t kacc = keys_loop h (next nd) t (kacc @ [key nd])"
          using False Some by (subst keys_loop.simps) simp
        show ?thesis using y' unfolding v kk by blast
      qed
    qed
  qed
qed

subsection \<open>A reachable container that is not well formed\<close>

lemma reachable_MoveAfter:
  "reachable d \<Longrightarrow> MoveAfter d k after = Some (r, d') \<Longrightarrow> reachable d'"
  by (rule reachable.step[where c = "CallMoveAfter k after" and r = "Flag r"]) simp_all

lemma reachable_ab: "reachable ab"
proof -
  from invariant_Set[OF invariant_New, of "''a''" 1] obtain d1 :: "(string, int) OrderedDict"
    where d1: "Set New ''a'' 1 = Some d1" "invariant d1" by blast
  from invariant_Set[OF d1(2), of "''b''" 2] obtain d2
    where d2: "Set d1 ''b'' 2 = Some d2" by blast
  have "ab = d2" by (simp add: ab_def d1 d2)
  then show ?thesis using reachable_Set[OF reachable_Set[OF reachable.fresh d1(1)] d2] by simp
qed

lemma ab_moved_eq: "MoveAfter ab ''a'' ''a'' = Some (True, ab_moved)"
  by (simp add: ab_moved_def ab_def run_defs)

lemma reachable_ab_moved: "reachable ab_moved"
  using reachable_MoveAfter[OF reachable_ab ab_moved_eq] .

lemma ab_moved_obs:
  "Keys ab_moved = Some (Some [''b''])" "Values ab_moved = Some (Some [2])" "Len ab_moved = 2"
  "Has ab_moved ''a''" "Get ab_moved ''b'' = Some (2, True)"
  by (simp_all add: ab_moved_def ab_def run_defs)

lemma not_invariant_ab_moved: "\<not> invariant ab_moved"
proof
  assume "invariant ab_moved"
  then obtain as where w: "well_formed ab_moved as" by (auto simp: invariant_def)
  from wf_Keys[OF w] wf_Len[OF w] show False
    by (auto simp: ab_moved_obs entries_def)
qed

section \<open>The claims\<close>

text \<open>
  Claim C1 says that after every sequence of public operations on a fresh container the
  index, the list walked from head to tail, and the count agree. The sequence
  \<open>Set a 1; MoveAfter a a\<close> refutes it: \<open>MoveAfter\<close> returns \<open>true\<close>, the index still
  holds \<open>a\<close> and the count is still 1, but the walk from head to tail finds no node.
  (\<open>invariant_exec\<close> above shows that every other call keeps the agreement.)
\<close>

theorem self_MoveAfter_breaks_agreement:
  "trace [CallSet ''a'' 1, CallMoveAfter ''a'' ''a'', CallHas ''a'', CallLen, CallKeys]
     (New :: (string, int) OrderedDict)
   = [Returned Done, Returned (Flag True), Returned (Flag True), Returned (Count 1),
      Returned (KeyList [])]"
  by (simp add: trace_defs run_defs)

text \<open>
  Claim C2 says that \<open>MoveAfter k k\<close> on a present key leaves \<open>Keys\<close>, \<open>Values\<close>, the
  count and \<open>Get k\<close> as they were. On the container \<open>a, b, c\<close> the call
  \<open>MoveAfter b b\<close> returns \<open>true\<close> and keeps the count and \<open>Get b\<close>, but \<open>b\<close> and its
  value are gone from \<open>Keys\<close> and \<open>Values\<close>: \<open>linkAfter\<close> links the unlinked node to
  itself.
\<close>

theorem self_MoveAfter_drops_key:
  "trace [CallSet ''a'' 1, CallSet ''b'' 2, CallSet ''c'' 3, CallKeys, CallValues,
          CallMoveAfter ''b'' ''b'', CallKeys, CallValues, CallLen, CallGet ''b'']
     (New :: (string, int) OrderedDict)
   = [Returned Done, Returned Done, Returned Done,
      Returned (KeyList [''a'', ''b'', ''c'']), Returned (ValueList [1, 2, 3]),
      Returned (Flag True),
      Returned (KeyList [''a'', ''c'']), Returned (ValueList [1, 3]),
      Returned (Count 3), Returned (Found 2 True)]"
  by (simp add: trace_defs run_defs)

text \<open>
  Claim C3 says that in every container state \<open>Set\<close> with an absent key links the new node
  immediately before the tail sentinel, so that the new key is the last element of \<open>Keys\<close>.
  After \<open>Set a 1; MoveAfter a a; Delete a\<close> the container is empty for every reader, but
  \<open>tail.prev\<close> still points to the deleted node, which \<open>MoveAfter\<close> had linked to itself.
  \<open>Set b 7\<close> then links the new node behind that dead node: the index holds \<open>b\<close> and the
  count is 1, but \<open>Keys\<close> and \<open>Values\<close> are empty. (On a container that satisfies the
  invariant the claim holds: \<open>Set_absent_well_formed\<close>.)
\<close>

theorem Set_absent_key_after_self_move:
  "trace [CallSet ''a'' 1, CallMoveAfter ''a'' ''a'', CallDelete ''a'',
          CallHas ''b'', CallKeys, CallLen,
          CallSet ''b'' 7,
          CallHas ''b'', CallGet ''b'', CallLen, CallKeys, CallValues]
     (New :: (string, int) OrderedDict)
   = [Returned Done, Returned (Flag True), Returned (Found 1 True),
      Returned (Flag False), Returned (KeyList []), Returned (Count 0),
      Returned Done,
      Returned (Flag True), Returned (Found 7 True), Returned (Count 1),
      Returned (KeyList []), Returned (ValueList [])]"
  by (simp add: trace_defs run_defs)

text \<open>
  Claim C4. In every state that a sequence of public calls can reach from \<open>New\<close>, \<open>Set\<close>
  with a key that is present returns and changes nothing but the \<open>val\<close> field of the node
  that the index holds for the key: the new state is the old one with that one store cell
  updated. The count, \<open>Has\<close> and \<open>Keys\<close> (and with it the position of every key) are
  unchanged, also where \<open>Keys\<close> does not return; \<open>Get\<close> of the key returns the new value
  and \<open>Get\<close> of every other key is unchanged; \<open>Values\<close> returns in the new state exactly
  when it does in the old one, with the same length and the same value at every position whose
  key is another key. Where the container satisfies the invariant, \<open>Values\<close> is the old
  sequence with the value at the key's position replaced.
\<close>

theorem Set_present_key_updates_in_place:
  assumes "reachable d" and "Has d k"
  shows "\<exists>d' a nd.
      Set d k v = Some d' \<and> reachable d'
    \<and> data d k = Some a \<and> heap d a = Some nd \<and> key nd = k
    \<and> d' = d\<lparr>heap := (heap d)(a \<mapsto> nd\<lparr>val := v\<rparr>)\<rparr>
    \<and> Len d' = Len d
    \<and> Keys d' = Keys d
    \<and> (\<forall>k'. Has d' k' = Has d k')
    \<and> Get d' k = Some (v, True)
    \<and> (\<forall>k'. k' \<noteq> k \<longrightarrow> Get d' k' = Get d k')
    \<and> rel_option (rel_option (\<lambda>vs vs'. \<exists>ks. Keys d = Some (Some ks) \<and> length ks = length vs
          \<and> list_all2 (\<lambda>(k', x) x'. k' \<noteq> k \<longrightarrow> x' = x) (zip ks vs) vs'))
        (Values d) (Values d')
    \<and> (invariant d \<longrightarrow> invariant d'
          \<and> (\<exists>ks vs. Keys d = Some (Some ks) \<and> Values d = Some (Some vs)
                \<and> Values d' = Some (Some (map (\<lambda>(k', v'). if k' = k then v else v') (zip ks vs)))))"
proof -
  have ix: "indexed d" using assms(1) by (rule reachable_indexed)
  from assms(2) obtain a where ka: "data d k = Some a" by (auto simp: Has_iff)
  from indexed_node[OF ix ka] obtain nd where nd: "heap d a = Some nd" "key nd = k" by blast
  define d' where "d' = d\<lparr>heap := (heap d)(a \<mapsto> nd\<lparr>val := v\<rparr>)\<rparr>"
  have run: "Set d k v = Some d'" by (simp add: Set_def set_val_def ka nd d'_def)
  have r': "reachable d'" using reachable_Set[OF assms(1) run] .
  have df: "differ_at_key k (heap d) (heap d')"
    using differ_at_key_set_val[of "heap d" a nd k v] nd by (simp add: d'_def)
  have L: "Len d' = Len d" by (simp add: Len_def d'_def)
  have H: "\<forall>k'. Has d' k' = Has d k'" by (simp add: Has_iff d'_def)
  have G: "Get d' k = Some (v, True)" by (simp add: Get_def d'_def ka)
  have G': "\<forall>k'. k' \<noteq> k \<longrightarrow> Get d' k' = Get d k'"
  proof (intro allI impI)
    fix k' assume ne: "k' \<noteq> k"
    show "Get d' k' = Get d k'"
    proof (cases "data d k'")
      case None
      then show ?thesis by (simp add: Get_def d'_def)
    next
      case (Some b)
      from indexed_node[OF ix Some] nd ne have "b \<noteq> a" by auto
      then show ?thesis using Some by (simp add: Get_def d'_def)
    qed
  qed
  have hd: "rel_option (\<lambda>n n'. next n' = next n \<and> key n' = key n \<and> (key n \<noteq> k \<longrightarrow> val n' = val n))
              (heap d (head d)) (heap d' (head d))"
    using df by (simp add: differ_at_key_def)
  have ht: "head d' = head d" "tail d' = tail d" by (simp_all add: d'_def)
  have K: "Keys d' = Keys d"
  proof (cases "heap d (head d)")
    case None
    then have "heap d' (head d) = None" using hd by simp
    then show ?thesis using None by (simp add: Keys_def ht)
  next
    case (Some hn)
    then obtain hn' where "heap d' (head d) = Some hn'" "next hn' = next hn"
      using hd by (auto simp: option_rel_Some1)
    then show ?thesis using Some keys_loop_differ[OF df] by (simp add: Keys_def ht)
  qed
  let ?R = "\<lambda>vs vs'. \<exists>ks. Keys d = Some (Some ks) \<and> length ks = length vs
          \<and> list_all2 (\<lambda>(k', x) x'. k' \<noteq> k \<longrightarrow> x' = x) (zip ks vs) vs'"
  have V: "rel_option (rel_option ?R) (Values d) (Values d')"
  proof (cases "heap d (head d)")
    case None
    then have "heap d' (head d) = None" using hd by simp
    then show ?thesis using None by (simp add: Values_def ht)
  next
    case (Some hn)
    then obtain hn' where hn': "heap d' (head d) = Some hn'" "next hn' = next hn"
      using hd by (auto simp: option_rel_Some1)
    have Kd: "Keys d = keys_loop (heap d) (next hn) (tail d) []" using Some by (simp add: Keys_def)
    have Vd: "Values d = values_loop (heap d) (next hn) (tail d) []"
      using Some by (simp add: Values_def)
    have Vd': "Values d' = values_loop (heap d') (next hn) (tail d) []"
      using hn' by (simp add: Values_def ht)
    show ?thesis
    proof (cases "Values d")
      case None
      have "Values d' = None"
      proof (cases "Values d'")
        case (Some y')
        from values_loop_differ1[OF Some[unfolded Vd'], rule_format, of k "heap d" "[]" "[]"]
          differ_at_key_sym[OF df]
        show ?thesis using None by (auto simp: Vd)
      qed simp
      then show ?thesis using None by simp
    next
      case (Some y)
      from values_loop_differ1[OF Some[unfolded Vd], rule_format, of k "heap d'" "[]" "[]"] df
      obtain y' where "values_loop (heap d') (next hn) (tail d) [] = Some y'"
         "rel_option ?R y y'" by (auto simp: Kd)
      then show ?thesis using Some by (simp add: Vd')
    qed
  qed
  have I: "invariant d \<longrightarrow> invariant d'
          \<and> (\<exists>ks vs. Keys d = Some (Some ks) \<and> Values d = Some (Some vs)
                \<and> Values d' = Some (Some (map (\<lambda>(k', v'). if k' = k then v else v') (zip ks vs))))"
  proof
    assume "invariant d"
    from Set_present_well_formed[OF this assms(2), of v] run
    show "invariant d'
          \<and> (\<exists>ks vs. Keys d = Some (Some ks) \<and> Values d = Some (Some vs)
                \<and> Values d' = Some (Some (map (\<lambda>(k', v'). if k' = k then v else v') (zip ks vs))))"
      by auto
  qed
  show ?thesis using run r' ka nd d'_def L K H G G' V I by blast
qed

theorem Set_present_key_updates_in_place_witness:
  "reachable abc \<and> Has abc ''b'' \<and> invariant abc
   \<and> (\<exists>d'. Set abc ''b'' 20 = Some d' \<and> invariant d' \<and> Len d' = 3
        \<and> Keys d' = Some (Some [''a'', ''b'', ''c''])
        \<and> Values d' = Some (Some [1, 20, 3])
        \<and> Get d' ''b'' = Some (20, True) \<and> Get d' ''a'' = Get abc ''a'')
   \<and> reachable ab_moved \<and> Has ab_moved ''a'' \<and> \<not> invariant ab_moved
   \<and> Keys ab_moved = Some (Some [''b'']) \<and> Values ab_moved = Some (Some [2]) \<and> Len ab_moved = 2
   \<and> (\<exists>d'. Set ab_moved ''a'' 9 = Some d' \<and> Len d' = 2
        \<and> Keys d' = Some (Some [''b'']) \<and> Values d' = Some (Some [2])
        \<and> Get d' ''a'' = Some (9, True) \<and> Get d' ''b'' = Some (2, True))"
proof -
  have 1: "\<exists>d'. Set abc ''b'' 20 = Some d' \<and> invariant d' \<and> Len d' = 3
        \<and> Keys d' = Some (Some [''a'', ''b'', ''c''])
        \<and> Values d' = Some (Some [1, 20, 3])
        \<and> Get d' ''b'' = Some (20, True) \<and> Get d' ''a'' = Get abc ''a''"
    using Set_present_key_updates_in_place[OF reachable_abc abc_obs(5), of 20] invariant_abc
    by (auto simp: abc_obs)
  have 2: "\<exists>d'. Set ab_moved ''a'' 9 = Some d' \<and> Len d' = 2
        \<and> Keys d' = Some (Some [''b'']) \<and> Values d' = Some (Some [2])
        \<and> Get d' ''a'' = Some (9, True) \<and> Get d' ''b'' = Some (2, True)"
    using Set_present_key_updates_in_place[OF reachable_ab_moved ab_moved_obs(4), of 9]
    by (auto simp: ab_moved_obs option_rel_Some1 list_all2_Cons1)
  show ?thesis
    using 1 2 reachable_abc abc_obs(5) invariant_abc reachable_ab_moved ab_moved_obs
      not_invariant_ab_moved by blast
qed

text \<open>
  Claim C5 says that \<open>Delete\<close> of a present key removes the key from \<open>Has\<close> and from
  \<open>Keys\<close>. After \<open>Set a 1; Set b 2; MoveAfter a a; Delete a\<close> the container shows the
  single key \<open>b\<close> with count 1, but \<open>b.prev\<close> still points to the deleted node \<open>a\<close>.
  \<open>Delete b\<close> returns the value 2 and \<open>true\<close>, the index no longer holds \<open>b\<close> and the
  count is 0, but \<open>unlinkNode\<close> wrote the dead node's \<open>next\<close> and not \<open>head.next\<close>: \<open>Keys\<close>
  still returns \<open>b\<close> and \<open>Values\<close> still returns 2. (On a container that satisfies the
  invariant the claim holds: \<open>Delete_Remove_well_formed\<close>.)
\<close>

theorem Delete_after_self_move_keeps_key:
  "trace [CallSet ''a'' 1, CallSet ''b'' 2, CallMoveAfter ''a'' ''a'', CallDelete ''a'',
          CallHas ''b'', CallKeys, CallLen,
          CallDelete ''b'',
          CallHas ''b'', CallLen, CallKeys, CallValues]
     (New :: (string, int) OrderedDict)
   = [Returned Done, Returned Done, Returned (Flag True), Returned (Found 1 True),
      Returned (Flag True), Returned (KeyList [''b'']), Returned (Count 1),
      Returned (Found 2 True),
      Returned (Flag False), Returned (Count 0), Returned (KeyList [''b'']),
      Returned (ValueList [2])]"
  by (simp add: trace_defs run_defs)

text \<open>
  Claim C6 says that for two distinct present keys \<open>MoveAfter k a\<close> places \<open>k\<close> immediately
  behind \<open>a\<close> in \<open>Keys\<close> and keeps the other keys. After
  \<open>Set a 1; Set b 2; MoveAfter a a; Delete a; Set a 3\<close> both keys are present, the count
  is 2 and \<open>Keys\<close> returns \<open>b, a\<close>, but \<open>b.prev\<close> still points to the node deleted
  earlier. \<open>MoveAfter b a\<close> returns \<open>true\<close>; \<open>unlinkNode\<close> writes the dead node's \<open>next\<close>
  and leaves \<open>head.next\<close> at \<open>b\<close>, and \<open>linkAfter\<close> sets \<open>b.next\<close> to the tail: \<open>Keys\<close>
  returns \<open>b\<close> alone, where the claim says \<open>a, b\<close>. (On a container that satisfies the
  invariant the claim holds: \<open>MoveAfter_well_formed\<close>.)
\<close>

theorem MoveAfter_after_self_move_drops_key:
  "trace [CallSet ''a'' 1, CallSet ''b'' 2, CallMoveAfter ''a'' ''a'', CallDelete ''a'',
          CallSet ''a'' 3,
          CallHas ''a'', CallHas ''b'', CallKeys, CallLen,
          CallMoveAfter ''b'' ''a'',
          CallKeys, CallLen, CallGet ''a'', CallGet ''b'']
     (New :: (string, int) OrderedDict)
   = [Returned Done, Returned Done, Returned (Flag True), Returned (Found 1 True),
      Returned Done,
      Returned (Flag True), Returned (Flag True), Returned (KeyList [''b'', ''a'']),
      Returned (Count 2),
      Returned (Flag True),
      Returned (KeyList [''b'']), Returned (Count 2), Returned (Found 3 True),
      Returned (Found 2 True)]"
  by (simp add: trace_defs run_defs)

text \<open>
  Claim C7 says that \<open>MoveToEnd\<close> of the last key returns \<open>true\<close> and changes no
  observation. After \<open>Set a 1; Set b 2; Set c 3; MoveAfter b b; MoveToStart b\<close> the
  container shows \<open>b, a, c\<close> with count 3, but \<open>c.prev\<close> still points to \<open>b\<close>, where the
  self-move left it. \<open>MoveToEnd c\<close> on the last key returns \<open>true\<close>; \<open>unlinkNode\<close> writes
  \<open>b.next\<close> instead of \<open>a.next\<close>, and \<open>a\<close> is gone from \<open>Keys\<close> and its value from
  \<open>Values\<close>, while the index still holds \<open>a\<close> and the count is still 3. (On a container
  that satisfies the invariant the claim holds: \<open>MoveToEnd_MoveToStart_well_formed\<close>.)
\<close>

theorem MoveToEnd_last_key_after_self_move:
  "trace [CallSet ''a'' 1, CallSet ''b'' 2, CallSet ''c'' 3, CallMoveAfter ''b'' ''b'',
          CallMoveToStart ''b'',
          CallKeys, CallValues, CallLen,
          CallMoveToEnd ''c'',
          CallKeys, CallValues, CallLen, CallHas ''a'']
     (New :: (string, int) OrderedDict)
   = [Returned Done, Returned Done, Returned Done, Returned (Flag True),
      Returned (Flag True),
      Returned (KeyList [''b'', ''a'', ''c'']), Returned (ValueList [2, 1, 3]), Returned (Count 3),
      Returned (Flag True),
      Returned (KeyList [''b'', ''c'']), Returned (ValueList [2, 3]), Returned (Count 3),
      Returned (Flag True)]"
  by (simp add: trace_defs run_defs)

text \<open>
  Claim C8. After \<open>Clear\<close> the count is 0, \<open>Keys\<close>, \<open>Values\<close> and \<open>All\<close> are empty,
  and \<open>Has\<close> and \<open>Get\<close> fail for every key; this holds for every state. For every
  state that a sequence of public calls can reach from \<open>New\<close>, the cleared container
  gives the same observations as \<open>New\<close>, and every further sequence of calls (a \<open>Set\<close>
  in particular) produces the same replies, panics and divergences as on \<open>New\<close>.
\<close>

theorem Clear_like_New:
  "Len (Clear d) = 0 \<and> Keys (Clear d) = Some (Some []) \<and> Values (Clear d) = Some (Some [])
   \<and> All (Clear d) yield = Some (Some [])
   \<and> \<not> Has (Clear d) k \<and> Get (Clear d) k = Some (default, False)
   \<and> (reachable d \<longrightarrow> observe (Clear d) = observe New \<and> trace cs (Clear d) = trace cs New)"
proof -
  have "Keys (Clear d) = Some (Some [])"
    by (simp add: Keys_def Clear_def Let_def keys_loop.simps)
  moreover have "Values (Clear d) = Some (Some [])"
    by (simp add: Values_def Clear_def Let_def values_loop.simps)
  moreover have "All (Clear d) yield = Some (Some [])"
    by (simp add: All_def Clear_def Let_def all_loop.simps)
  moreover have "Len (Clear d) = 0" "\<not> Has (Clear d) k" "Get (Clear d) k = Some (default, False)"
    by (simp_all add: Len_def Has_def Get_def Clear_def Let_def)
  moreover have "reachable d \<longrightarrow> observe (Clear d) = observe New \<and> trace cs (Clear d) = trace cs New"
    using trace_sim[OF sim_New_Clear, of d cs] observe_Clear[of d] reachable_alloc_ok[of d]
    by blast
  ultimately show ?thesis by blast
qed

theorem Clear_like_New_witness:
  "reachable abc \<and> observe (Clear abc) = observe New
   \<and> trace [CallSet ''x'' 7, CallKeys, CallValues, CallLen] (Clear abc)
       = trace [CallSet ''x'' 7, CallKeys, CallValues, CallLen] New
   \<and> trace [CallSet ''x'' 7, CallKeys, CallValues, CallLen] (New :: (string, int) OrderedDict)
       = [Returned Done, Returned (KeyList [''x'']), Returned (ValueList [7]), Returned (Count 1)]"
proof -
  have "trace [CallSet ''x'' 7, CallKeys, CallValues, CallLen] (New :: (string, int) OrderedDict)
       = [Returned Done, Returned (KeyList [''x'']), Returned (ValueList [7]), Returned (Count 1)]"
    by (simp add: trace_defs run_defs)
  then show ?thesis
    using Clear_like_New[of abc _ _ "[CallSet ''x'' 7, CallKeys, CallValues, CallLen]"] reachable_abc
    by simp
qed

text \<open>
  Claim C9 says that every mutating operation holds the lock exclusively for the whole
  operation, so that concurrent callers never produce a torn state. \<open>Delete\<close> of the second
  implementation takes the read lock (\<open>o.mu.RLock()\<close>), which two callers can hold together.
  On the container \<open>a, b\<close>, two such calls, \<open>Delete a\<close> and \<open>Delete b\<close>, whose statements
  alternate, both return \<open>true\<close> and release the lock, and leave a container whose count
  is 0 and whose index is empty, while \<open>Keys\<close> still returns \<open>b\<close>. With the write lock of
  the first implementation the second caller cannot start (\<open>exclusive_schedule_blocked\<close>),
  and every schedule in which both callers return has the results and the final state of
  one \<open>Delete\<close> after the other (\<open>exclusive_Delete_serial\<close>).
\<close>

theorem concurrent_main_Delete_tears_state:
  "(case interleave Shared [0, 1, 0, 1, 0, 1, 0, 1, 0, 1, 0, 1, 0, 1]
           [AtLock ''a'', AtLock ''b''] \<lparr>mu = unlocked, dict = ab\<rparr> of
      None \<Rightarrow> None
    | Some (ts, s) \<Rightarrow> Some (ts, mu s, Keys (dict s), Has (dict s) ''b'', Len (dict s)))
   = Some ([Returned_from (1, True), Returned_from (2, True)], unlocked,
           Some (Some [''b'']), False, 0)"
  by (simp add: step_defs ab_def run_defs)

text \<open>
  Claim C10. The second implementation in the source file (\<open>package main\<close>) defines
  \<open>New\<close>, \<open>NewWithCapacity\<close>, \<open>Set\<close>, \<open>Get\<close>, \<open>Delete\<close>, \<open>Remove\<close>, \<open>Len\<close>,
  \<open>Has\<close>, \<open>Keys\<close>, \<open>Values\<close> and \<open>All\<close>. Run by a single caller from a fresh container,
  every sequence of these calls produces the same replies in both implementations, the
  sequences returned by \<open>Keys\<close> and \<open>Values\<close> included.
\<close>

theorem variants_agree:
  "main_trace cs main_New = trace (map to_call cs) New
   \<and> main_trace cs (main_NewWithCapacity capacity) = trace (map to_call cs) (NewWithCapacity capacity)
   \<and> main_trace cs main_New = main_trace cs (main_NewWithCapacity capacity)"
  using main_trace_eq[OF invariant_New, of cs]
  by (simp add: main_New_eq main_NewWithCapacity_def NewWithCapacity_def)

theorem variants_agree_witness:
  "main_trace [MainSet ''a'' 1, MainSet ''b'' 2, MainSet ''a'' 3, MainDelete ''b'', MainHas ''b'',
               MainGet ''a'', MainKeys, MainValues, MainLen] (main_New :: (string, int) OrderedDict)
   = [Returned Done, Returned Done, Returned Done, Returned (Found 2 True), Returned (Flag False),
      Returned (Found 3 True), Returned (KeyList [''a'']), Returned (ValueList [3]),
      Returned (Count 1)]"
proof -
  let ?cs = "[MainSet ''a'' 1, MainSet ''b'' 2, MainSet ''a'' 3, MainDelete ''b'', MainHas ''b'',
               MainGet ''a'', MainKeys, MainValues, MainLen] :: (string, int) main_call list"
  have e: "trace (map to_call ?cs) New
      = [Returned Done, Returned Done, Returned Done, Returned (Found 2 True),
         Returned (Flag False), Returned (Found 3 True), Returned (KeyList [''a'']),
         Returned (ValueList [3]), Returned (Count 1)]"
    by (simp add: trace_defs run_defs)
  have "main_trace ?cs main_New = trace (map to_call ?cs) New"
    using variants_agree[of ?cs 0] by blast
  then show ?thesis unfolding e .
qed

end
